theory Spec2Isabelle
  imports Complex_Main "HOL-Library.Word" "HOL-Library.AList"
begin

unbundle bit_operations_syntax

section \<open>Data model (types.ts)\<close>

text \<open>
  JavaScript numbers are modelled as \<^typ>\<open>real\<close>: the risk and layout formulas are
  read as exact arithmetic. Integer-valued fields written by the layout engine are
  \<^typ>\<open>int\<close>. Identifiers are strings. Field names follow the source; \<open>id\<close> and
  \<open>name\<close> carry a prefix because both interfaces declare them.
\<close>

datatype Gender = Male | Female

datatype DiseaseType = Dominant | Recessive | XLinked | Multifactorial

record Disease =
  d_id :: string
  d_name :: string
  d_type :: DiseaseType
  prevalence :: real
  penetrance :: real
  description :: string
  color :: string

record Position3D =
  pos_x :: real
  pos_y :: real
  pos_z :: real

record FamilyMember =
  m_id :: string
  m_name :: string
  age :: real
  gender :: Gender
  parentIds :: "string list"
  childrenIds :: "string list"
  diseases :: "Disease list"
  riskScores :: "string \<rightharpoonup> real"
  position :: Position3D
  generation :: int

record GeneticRisk =
  memberId :: string
  diseaseId :: string
  riskScore :: real
  inheritancePattern :: string
  explanation :: string

record ParentalRisk =
  risk :: real
  pattern :: string

record TreeLayoutConfig =
  generationSpacing :: real
  siblingSpacing :: real
  branchSpacing :: real

section \<open>Risk propagation engine (class GeneticSimulator)\<close>

text \<open>
  \<open>new Map(members.map(m => [m.id, m]))\<close>: a later entry with the same id replaces an
  earlier one, so the lookup returns the last member carrying the id.
\<close>

definition memberMapOf :: "FamilyMember list \<Rightarrow> (string \<rightharpoonup> FamilyMember)" where
  "memberMapOf members = map_of (rev (map (\<lambda>m. (m_id m, m)) members))"

text \<open>\<open>member.diseases.some(d => d.id === disease.id)\<close>\<close>

definition hasDisease :: "FamilyMember \<Rightarrow> Disease \<Rightarrow> bool" where
  "hasDisease member disease = list_ex (\<lambda>d. d_id d = d_id disease) (diseases member)"

text \<open>Decimal rendering of \<open>affectedParents.length\<close> inside a template string.\<close>

function showNat :: "nat \<Rightarrow> string" where
  "showNat n =
     (if n < 10 then [char_of (48 + n)]
      else showNat (n div 10) @ [char_of (48 + n mod 10)])"
  by pat_completeness auto
termination
  by (relation "measure (\<lambda>n. n)") auto

definition calculateDominantRisk :: "FamilyMember list \<Rightarrow> FamilyMember list \<Rightarrow> ParentalRisk" where
  "calculateDominantRisk affectedParents allParents =
     (if length affectedParents = 0 then
        \<lparr>risk = 0, pattern = ''no affected parents''\<rparr>
      else if length affectedParents = 1 then
        \<lparr>risk = 0.5, pattern = ''autosomal dominant (one parent)''\<rparr>
      else
        \<lparr>risk = 0.75, pattern = ''autosomal dominant (both parents)''\<rparr>)"

definition calculateRecessiveRisk :: "FamilyMember list \<Rightarrow> FamilyMember list \<Rightarrow> ParentalRisk" where
  "calculateRecessiveRisk affectedParents allParents =
     (if length affectedParents = 0 then
        (let carrierFreq = sqrt 0.01
         in \<lparr>risk = carrierFreq * 0.25, pattern = ''autosomal recessive (carrier risk)''\<rparr>)
      else if length affectedParents = 1 then
        \<lparr>risk = 0.5, pattern = ''autosomal recessive (one affected parent)''\<rparr>
      else
        \<lparr>risk = 1.0, pattern = ''autosomal recessive (both parents affected)''\<rparr>)"

definition calculateXLinkedRisk ::
  "FamilyMember list \<Rightarrow> FamilyMember list \<Rightarrow> Gender \<Rightarrow> ParentalRisk" where
  "calculateXLinkedRisk affectedParents allParents childGender =
     (let affectedMother = find (\<lambda>p. gender p = Female) affectedParents;
          affectedFather = find (\<lambda>p. gender p = Male) affectedParents
      in if childGender = Male then
           (if affectedMother \<noteq> None then
              \<lparr>risk = 0.5, pattern = ''X-linked (affected mother, male child)''\<rparr>
            else
              \<lparr>risk = 0, pattern = ''X-linked (male child, no affected mother)''\<rparr>)
         else
           (if affectedFather \<noteq> None \<and> affectedMother \<noteq> None then
              \<lparr>risk = 0.5, pattern = ''X-linked (both parents affected, female child)''\<rparr>
            else if affectedFather \<noteq> None \<or> affectedMother \<noteq> None then
              \<lparr>risk = 0.25, pattern = ''X-linked (one parent affected, female child)''\<rparr>
            else
              \<lparr>risk = 0, pattern = ''X-linked (no affected parents, female child)''\<rparr>))"

definition calculateMultifactorialRisk ::
  "FamilyMember list \<Rightarrow> FamilyMember list \<Rightarrow> ParentalRisk" where
  "calculateMultifactorialRisk affectedParents allParents =
     (let baseRisk = 0.05;
          riskMultiplier = 2.5;
          r = baseRisk * riskMultiplier ^ length affectedParents
      in \<lparr>risk = min r 0.8,
          pattern = ''multifactorial ('' @ showNat (length affectedParents) @ '' affected parents)''\<rparr>)"

text \<open>
  The \<open>switch\<close> on \<open>disease.type\<close>; its \<open>default\<close> branch is unreachable for the four
  values the type admits.
\<close>

definition calculateParentalRisk ::
  "FamilyMember list \<Rightarrow> Disease \<Rightarrow> Gender \<Rightarrow> ParentalRisk" where
  "calculateParentalRisk parents disease childGender =
     (let affectedParents = filter (\<lambda>p. hasDisease p disease) parents
      in case d_type disease of
           Dominant \<Rightarrow> calculateDominantRisk affectedParents parents
         | Recessive \<Rightarrow> calculateRecessiveRisk affectedParents parents
         | XLinked \<Rightarrow> calculateXLinkedRisk affectedParents parents childGender
         | Multifactorial \<Rightarrow> calculateMultifactorialRisk affectedParents parents)"

definition combineRisks :: "real \<Rightarrow> real \<Rightarrow> real" where
  "combineRisks risk1 risk2 = 1 - (1 - risk1) * (1 - risk2)"

text \<open>
  \<open>member.parentIds.map(id => memberMap.get(id)).filter(Boolean)\<close>: unresolved ids are
  dropped, order and repetitions are kept.
\<close>

definition resolveParents :: "FamilyMember \<Rightarrow> (string \<rightharpoonup> FamilyMember) \<Rightarrow> FamilyMember list" where
  "resolveParents member memberMap = List.map_filter memberMap (parentIds member)"

text \<open>
  \<open>toFixed1\<close> stands for \<open>Number.prototype.toFixed(1)\<close>, which only feeds the
  explanation text; it is a parameter of the model.
\<close>

definition calculateMemberDiseaseRisk ::
  "(real \<Rightarrow> string) \<Rightarrow> FamilyMember \<Rightarrow> Disease \<Rightarrow> (string \<rightharpoonup> FamilyMember) \<Rightarrow> GeneticRisk" where
  "calculateMemberDiseaseRisk toFixed1 member disease memberMap =
     (if hasDisease member disease then
        \<lparr>memberId = m_id member, diseaseId = d_id disease, riskScore = 1.0,
         inheritancePattern = ''affected'',
         explanation = m_name member @ '' is already affected by '' @ d_name disease @ ''.''\<rparr>
      else
        (let riskScore0 = prevalence disease;
             explanation0 = ''Base population risk: '' @ toFixed1 (prevalence disease * 100) @ ''%'';
             inheritancePattern0 = ''population'';
             parents = resolveParents member memberMap;
             (riskScore1, inheritancePattern1, explanation1) =
               (if length parents > 0 then
                  (let parentalRisk = calculateParentalRisk parents disease (gender member)
                   in (combineRisks riskScore0 (risk parentalRisk),
                       pattern parentalRisk,
                       explanation0 @ '' Parental contribution: '' @ toFixed1 (risk parentalRisk * 100)
                         @ ''% ('' @ pattern parentalRisk @ '')''))
                else (riskScore0, inheritancePattern0, explanation0));
             riskScore2 = riskScore1 * penetrance disease;
             riskScore3 = min riskScore2 0.95
         in \<lparr>memberId = m_id member, diseaseId = d_id disease, riskScore = riskScore3,
             inheritancePattern = inheritancePattern1, explanation = explanation1\<rparr>))"

text \<open>
  \<open>member.riskScores[disease.id] = risk.riskScore\<close>. The table is a plain object
  (\<open>calculateFamilyRisks\<close> resets it to \<open>{}\<close>); the map holds its own properties. Under
  the key \<open>__proto__\<close> the assignment reaches the accessor inherited from
  \<open>Object.prototype\<close>, which ignores a number: no property is created.
\<close>

definition assignScore :: "(string \<rightharpoonup> real) \<Rightarrow> string \<Rightarrow> real \<Rightarrow> (string \<rightharpoonup> real)" where
  "assignScore scores key score = (if key = ''__proto__'' then scores else scores(key \<mapsto> score))"

text \<open>
  \<open>calculateDiseaseRisks\<close> writes \<open>member.riskScores[disease.id]\<close> on every member and
  collects the results. The objects in \<open>memberMap\<close> are the members being written, but
  the computation reads none of their \<open>riskScores\<close>. The function returns the result
  list together with the updated members.
\<close>

definition calculateDiseaseRisks ::
  "(real \<Rightarrow> string) \<Rightarrow> FamilyMember list \<Rightarrow> Disease \<Rightarrow> GeneticRisk list \<times> FamilyMember list" where
  "calculateDiseaseRisks toFixed1 members disease =
     (let memberMap = memberMapOf members;
          riskOf = (\<lambda>member. calculateMemberDiseaseRisk toFixed1 member disease memberMap)
      in (map riskOf members,
          map (\<lambda>member. member\<lparr>riskScores :=
                 assignScore (riskScores member) (d_id disease) (riskScore (riskOf member))\<rparr>) members))"

definition calculateFamilyRisks ::
  "(real \<Rightarrow> string) \<Rightarrow> FamilyMember list \<Rightarrow> Disease list \<Rightarrow> GeneticRisk list \<times> FamilyMember list" where
  "calculateFamilyRisks toFixed1 members diseaseList =
     fold (\<lambda>disease (risks, ms).
             (let (diseaseRisks, ms') = calculateDiseaseRisks toFixed1 ms disease
              in (risks @ diseaseRisks, ms')))
          diseaseList
          ([], map (\<lambda>member. member\<lparr>riskScores := Map.empty\<rparr>) members)"

section \<open>Tree layout engine (class TreeLayoutEngine)\<close>

text \<open>
  The layout engine writes \<open>generation\<close> on the objects of the input array and reads
  them back through \<open>memberMap\<close> and the queue, so object identity matters: an object
  is its index in the array, and the array is the store. \<open>memberIndexOf\<close> is
  \<open>new Map(members.map(m => [m.id, m]))\<close> with indices for object references (the last
  member carrying an id wins). Ids never change, so the map is recomputed from the
  store wherever the source passes \<open>memberMap\<close>.
\<close>

definition memberIndexOf :: "FamilyMember list \<Rightarrow> (string \<rightharpoonup> nat)" where
  "memberIndexOf members = map_of (rev (zip (map m_id members) [0..<length members]))"

text \<open>
  \<open>generations\<close> is a \<open>Map<number, FamilyMember[]>\<close> in insertion order:
  \<open>if (!generations.has(g)) generations.set(g, []); generations.get(g).push(member)\<close>.
\<close>

definition pushGeneration :: "int \<Rightarrow> nat \<Rightarrow> (int \<times> nat list) list \<Rightarrow> (int \<times> nat list) list" where
  "pushGeneration g i generations =
     (let generations' = (if map_of generations g = None then AList.update g [] generations
                          else generations)
      in AList.map_entry g (\<lambda>l. l @ [i]) generations')"

text \<open>\<open>member.generation = generation\<close> on the object at index \<open>i\<close>.\<close>

definition setGeneration :: "FamilyMember list \<Rightarrow> nat \<Rightarrow> int \<Rightarrow> FamilyMember list" where
  "setGeneration members i g = members[i := (members ! i)\<lparr>generation := g\<rparr>]"

text \<open>
  The queue entries pushed by \<open>member.childrenIds.forEach\<close>: a child is pushed when its
  id resolves and is not yet visited.
\<close>

definition childEntries :: "FamilyMember list \<Rightarrow> string set \<Rightarrow> nat \<Rightarrow> int \<Rightarrow> (nat \<times> int) list" where
  "childEntries members visited i g =
     List.map_filter
       (\<lambda>childId. case memberIndexOf members childId of
                    None \<Rightarrow> None
                  | Some child \<Rightarrow> if childId \<in> visited then None else Some (child, g + 1))
       (childrenIds (members ! i))"

text \<open>
  Termination measure of the traversal: the ids of members and queued objects that are
  not yet visited.
\<close>

definition bfsPending :: "FamilyMember list \<Rightarrow> (nat \<times> int) list \<Rightarrow> string set \<Rightarrow> string set" where
  "bfsPending ms q v = (set (map m_id ms) \<union> (\<lambda>e. m_id (ms ! fst e)) ` set q) - v"

text \<open>
  The \<open>while (queue.length > 0)\<close> loop of \<open>organizeByGenerations\<close>, with
  \<open>queue.shift()\<close> as the head of the list. It returns the store and the
  \<open>generations\<close> map.
\<close>

function bfsLoop ::
  "FamilyMember list \<Rightarrow> (nat \<times> int) list \<Rightarrow> string set \<Rightarrow> (int \<times> nat list) list
     \<Rightarrow> FamilyMember list \<times> (int \<times> nat list) list" where
  "bfsLoop members [] visited generations = (members, generations)"
| "bfsLoop members ((i, g) # queue) visited generations =
     (if m_id (members ! i) \<in> visited then bfsLoop members queue visited generations
      else
        (let visited' = insert (m_id (members ! i)) visited;
             members' = setGeneration members i g;
             generations' = pushGeneration g i generations
         in bfsLoop members' (queue @ childEntries members' visited' i g) visited' generations'))"
  by pat_completeness auto
termination
proof (relation "(\<lambda>(ms, q, v, gens). card (bfsPending ms q v))
                   <*mlex*> measure (\<lambda>(ms, q, v, gens). length q)")
  show "wf ((\<lambda>(ms, q, v, gens). card (bfsPending ms q v))
                   <*mlex*> measure (\<lambda>(ms, q, v, gens). length q))"
    by (simp add: wf_mlex)
next
  fix members :: "FamilyMember list" and i :: nat and g :: int and queue :: "(nat \<times> int) list"
    and visited :: "string set" and generations :: "(int \<times> nat list) list"
  assume "m_id (members ! i) \<in> visited"
  have "bfsPending members queue visited \<subseteq> bfsPending members ((i, g) # queue) visited"
    by (auto simp: bfsPending_def)
  moreover have "finite (bfsPending members ((i, g) # queue) visited)"
    by (simp add: bfsPending_def)
  ultimately have "card (bfsPending members queue visited)
        \<le> card (bfsPending members ((i, g) # queue) visited)"
    by (intro card_mono)
  then show "((members, queue, visited, generations), (members, (i, g) # queue, visited, generations))
       \<in> (\<lambda>(ms, q, v, gens). card (bfsPending ms q v))
                   <*mlex*> measure (\<lambda>(ms, q, v, gens). length q)"
    by (auto simp: mlex_iff)
next
  fix members :: "FamilyMember list" and i :: nat and g :: int and queue :: "(nat \<times> int) list"
    and visited :: "string set" and generations :: "(int \<times> nat list) list"
    and visited' members' generations'
  assume nv: "m_id (members ! i) \<notin> visited"
    and v': "visited' = insert (m_id (members ! i)) visited"
    and m': "members' = setGeneration members i g"
    and "generations' = pushGeneration g i generations"
  have ids: "m_id (members' ! j) = m_id (members ! j)" for j
    unfolding m' setGeneration_def
    by (cases "i < length members"; cases "j = i") (simp_all add: list_update_beyond)
  have len: "length members' = length members" by (simp add: m' setGeneration_def)
  have idl: "map m_id members' = map m_id members"
    by (rule nth_equalityI) (simp_all add: len ids)
  have ce: "m_id (members' ! fst e) \<in> set (map m_id members')"
    if e_in: "e \<in> set (childEntries members' visited' i g)" for e
  proof -
    obtain cid where "memberIndexOf members' cid = Some (fst e)"
      using e_in
      by (auto simp: childEntries_def List.map_filter_def split: option.splits if_splits)
    then have "(cid, fst e) \<in> set (zip (map m_id members') [0..<length members'])"
      by (auto simp: memberIndexOf_def dest: map_of_SomeD)
    then have "fst e < length members'" by (auto simp: set_zip)
    then show ?thesis by simp
  qed
  let ?old = "bfsPending members ((i, g) # queue) visited"
  let ?new = "bfsPending members' (queue @ childEntries members' visited' i g) visited'"
  have "?new \<subseteq> ?old"
    unfolding bfsPending_def using ce by (auto simp: ids idl v')
  moreover have "m_id (members ! i) \<in> ?old" using nv by (simp add: bfsPending_def)
  moreover have "m_id (members ! i) \<notin> ?new" by (simp add: v' bfsPending_def)
  ultimately have "?new \<subset> ?old" by blast
  moreover have "finite ?old" by (simp add: bfsPending_def)
  ultimately have "card ?new < card ?old" by (rule psubset_card_mono [rotated])
  then show "((members', queue @ childEntries members' visited' i g, visited', generations'),
        (members, (i, g) # queue, visited, generations))
       \<in> (\<lambda>(ms, q, v, gens). card (bfsPending ms q v))
                   <*mlex*> measure (\<lambda>(ms, q, v, gens). length q)"
    by (simp add: mlex_iff)
qed

definition organizeByGenerations ::
  "FamilyMember list \<Rightarrow> FamilyMember list \<times> (int \<times> nat list) list" where
  "organizeByGenerations members =
     (let roots = filter (\<lambda>i. length (parentIds (members ! i)) = 0) [0..<length members];
          queue = map (\<lambda>member. (member, 0)) roots
      in bfsLoop members queue {} [])"

text \<open>\<open>new Set(parentIds)\<close> is \<open>remdups\<close>; \<open>size\<close> is its length.\<close>

definition haveSameParents :: "FamilyMember \<Rightarrow> FamilyMember \<Rightarrow> bool" where
  "haveSameParents member1 member2 =
     (if length (parentIds member1) \<noteq> length (parentIds member2) then False
      else
        (let parents1 = remdups (parentIds member1);
             parents2 = remdups (parentIds member2)
         in length parents1 = length parents2 \<and> list_all (\<lambda>k. k \<in> set parents2) parents1))"

definition findSiblings :: "FamilyMember list \<Rightarrow> nat \<Rightarrow> nat list \<Rightarrow> nat list" where
  "findSiblings store member generationMembers =
     (if length (parentIds (store ! member)) = 0 then [member]
      else filter (\<lambda>other. haveSameParents (store ! member) (store ! other)) generationMembers)"

definition groupSiblings :: "FamilyMember list \<Rightarrow> nat list \<Rightarrow> nat list list" where
  "groupSiblings store members =
     snd (fold (\<lambda>member (processed, groups).
                  if m_id (store ! member) \<in> processed then (processed, groups)
                  else
                    (let siblings = findSiblings store member members
                     in (processed \<union> set (map (\<lambda>sibling. m_id (store ! sibling)) siblings),
                         groups @ [siblings])))
               members ({}, []))"

text \<open>
  \<open>hash = ((hash << 5) - hash) + char; hash = hash & hash\<close> keeps \<open>hash\<close> a signed
  32-bit integer: arithmetic on \<^typ>\<open>32 word\<close>, read back signed for \<open>Math.abs\<close>.
  \<open>charCodeAt\<close> is the character code; the ids of this application are ASCII
  (\<open>uuid\<close> strings and \<open>member-...\<close>).
\<close>

definition hashString :: "string \<Rightarrow> int" where
  "hashString str =
     \<bar>sint (fold (\<lambda>c (hash :: 32 word). (push_bit 5 hash - hash) + of_nat (of_char c)) str 0)\<bar>"

definition calculateZPosition :: "FamilyMember \<Rightarrow> real" where
  "calculateZPosition member = (let hash = hashString (m_id member) in of_int (hash mod 5) - 2)"

text \<open>
  \<open>const m = allMembers.find(p); if (m) m.position = ...\<close>: the first element that
  satisfies \<open>p\<close> is updated, if there is one.
\<close>

fun updateFirst :: "('a \<Rightarrow> bool) \<Rightarrow> ('a \<Rightarrow> 'a) \<Rightarrow> 'a list \<Rightarrow> 'a list" where
  "updateFirst P f [] = []"
| "updateFirst P f (x # xs) = (if P x then f x # xs else x # updateFirst P f xs)"

text \<open>
  The body of \<open>siblingGroups.forEach\<close> in \<open>positionGeneration\<close>; the state is
  \<open>currentX\<close> and the array of positioned copies.
\<close>

definition positionGroup ::
  "TreeLayoutConfig \<Rightarrow> FamilyMember list \<Rightarrow> real \<Rightarrow> nat list \<Rightarrow> real \<times> FamilyMember list
     \<Rightarrow> real \<times> FamilyMember list" where
  "positionGroup config store y siblings state =
     (case state of (currentX, allMembers) \<Rightarrow>
        (let groupWidth = (real (length siblings) - 1) * siblingSpacing config;
             startX = currentX - groupWidth / 2;
             allMembers' =
               fold (\<lambda>(index, member) acc.
                       updateFirst (\<lambda>m. m_id m = m_id (store ! member))
                         (\<lambda>m. m\<lparr>position :=
                            \<lparr>pos_x = startX + real index * siblingSpacing config,
                             pos_y = y,
                             pos_z = calculateZPosition (store ! member)\<rparr>\<rparr>) acc)
                    (enumerate 0 siblings) allMembers
         in (currentX + (groupWidth + branchSpacing config), allMembers')))"

definition positionGeneration ::
  "nat list \<Rightarrow> int \<Rightarrow> TreeLayoutConfig \<Rightarrow> FamilyMember list \<Rightarrow> FamilyMember list
     \<Rightarrow> FamilyMember list" where
  "positionGeneration generationMembers gen config store allMembers =
     (let siblingGroups = groupSiblings store generationMembers;
          y = - of_int gen * generationSpacing config
      in snd (fold (positionGroup config store y) siblingGroups (0, allMembers)))"

definition DEFAULT_CONFIG :: TreeLayoutConfig where
  "DEFAULT_CONFIG = \<lparr>generationSpacing = 4, siblingSpacing = 3, branchSpacing = 2\<rparr>"

text \<open>
  \<open>calculateLayout\<close> returns the positioned copies (its result) together with the input
  array as \<open>organizeByGenerations\<close> left it. The copies are taken after the traversal, so
  they carry the new generations.
\<close>

definition calculateLayout ::
  "FamilyMember list \<Rightarrow> TreeLayoutConfig \<Rightarrow> FamilyMember list \<times> FamilyMember list" where
  "calculateLayout members config =
     (case organizeByGenerations members of (members', generations) \<Rightarrow>
        (let positionedMembers = members'
         in (fold (\<lambda>(gen, generationMembers) allMembers.
                     positionGeneration generationMembers gen config members' allMembers)
                  generations positionedMembers,
             members')))"

text \<open>
  \<open>countDescendants\<close> is a recursion over \<open>childrenIds\<close> with no visited set. The
  first argument bounds the depth of the call stack; \<open>None\<close> means the bound was hit.
\<close>

fun countDescendants :: "nat \<Rightarrow> (string \<rightharpoonup> FamilyMember) \<Rightarrow> FamilyMember \<Rightarrow> int option" where
  "countDescendants 0 memberMap member = None"
| "countDescendants (Suc fuel) memberMap member =
     fold (\<lambda>childId acc.
             case acc of
               None \<Rightarrow> None
             | Some count \<Rightarrow>
                 (case memberMap childId of
                    None \<Rightarrow> Some count
                  | Some child \<Rightarrow>
                      (case countDescendants fuel memberMap child of
                         None \<Rightarrow> None
                       | Some n \<Rightarrow> Some (count + n))))
          (childrenIds member) (Some (int (length (childrenIds member))))"

definition groupByGeneration :: "FamilyMember list \<Rightarrow> (int \<times> FamilyMember list) list" where
  "groupByGeneration members =
     fold (\<lambda>member generations.
             (let generations' = (if map_of generations (generation member) = None
                                  then AList.update (generation member) [] generations
                                  else generations)
              in AList.map_entry (generation member) (\<lambda>l. l @ [member]) generations'))
          members []"

text \<open>
  \<open>generationMembers.sort(cmp)\<close>: the comparator runs \<open>countDescendants\<close> on its two
  arguments, and a sort of two or more elements passes every element to it at least
  once; with fewer than two elements it is never called. The sort is stable and
  descending in the count.
\<close>

definition sortByDescendants ::
  "nat \<Rightarrow> (string \<rightharpoonup> FamilyMember) \<Rightarrow> FamilyMember list \<Rightarrow> FamilyMember list option" where
  "sortByDescendants fuel memberMap generationMembers =
     (if length generationMembers < 2 then Some generationMembers
      else
        (case those (map (countDescendants fuel memberMap) generationMembers) of
           None \<Rightarrow> None
         | Some counts \<Rightarrow>
             Some (map snd (sort_key (\<lambda>(count, member). - count) (zip counts generationMembers)))))"

text \<open>
  \<open>optimizeLayout\<close> returns the copies in input order: the sorted per-generation arrays
  are dropped.
\<close>

definition optimizeLayout :: "nat \<Rightarrow> FamilyMember list \<Rightarrow> FamilyMember list option" where
  "optimizeLayout fuel members =
     (let optimized = members;
          memberMap = memberMapOf optimized;
          generations = groupByGeneration optimized
      in case those (map (\<lambda>(gen, generationMembers). sortByDescendants fuel memberMap generationMembers)
                      generations) of
           None \<Rightarrow> None
         | Some sortedGenerations \<Rightarrow> Some optimized)"

record BoundingBox =
  box_min :: Position3D
  box_max :: Position3D
  box_center :: Position3D

definition calculateBoundingBox :: "FamilyMember list \<Rightarrow> BoundingBox" where
  "calculateBoundingBox members =
     (if length members = 0 then
        \<lparr>box_min = \<lparr>pos_x = 0, pos_y = 0, pos_z = 0\<rparr>,
         box_max = \<lparr>pos_x = 0, pos_y = 0, pos_z = 0\<rparr>,
         box_center = \<lparr>pos_x = 0, pos_y = 0, pos_z = 0\<rparr>\<rparr>
      else
        (let positions = map position members;
             lo = \<lparr>pos_x = Min (set (map pos_x positions)),
                   pos_y = Min (set (map pos_y positions)),
                   pos_z = Min (set (map pos_z positions))\<rparr>;
             hi = \<lparr>pos_x = Max (set (map pos_x positions)),
                   pos_y = Max (set (map pos_y positions)),
                   pos_z = Max (set (map pos_z positions))\<rparr>;
             center = \<lparr>pos_x = (pos_x lo + pos_x hi) / 2,
                       pos_y = (pos_y lo + pos_y hi) / 2,
                       pos_z = (pos_z lo + pos_z hi) / 2\<rparr>
         in \<lparr>box_min = lo, box_max = hi, box_center = center\<rparr>))"

text \<open>
  A small pedigree as concrete input: \<open>G\<close> and \<open>S\<close> are roots, \<open>P\<close> is the child
  of \<open>G\<close>, and \<open>C\<close> and \<open>D\<close> are the children of \<open>P\<close> and \<open>S\<close>. \<open>loopFamily\<close>
  holds a member listed as its own child.
\<close>

definition person :: "string \<Rightarrow> string list \<Rightarrow> string list \<Rightarrow> FamilyMember" where
  "person i ps cs = \<lparr>m_id = i, m_name = i, age = 30, gender = Female, parentIds = ps,
     childrenIds = cs, diseases = [], riskScores = Map.empty,
     position = \<lparr>pos_x = 9, pos_y = 9, pos_z = 9\<rparr>, generation = 7\<rparr>"

definition exPedigree :: "FamilyMember list" where
  "exPedigree = [person ''G'' [] [''P''], person ''S'' [] [''C'', ''D''],
     person ''P'' [''G''] [''C'', ''D''], person ''C'' [''P'', ''S''] [],
     person ''D'' [''P'', ''S''] []]"

definition loopFamily :: "FamilyMember list" where
  "loopFamily = [person ''A'' [] [''A''], person ''B'' [] []]"


section \<open>Auxiliary definitions for the risk engine proofs\<close>

text \<open>
  \<open>keepsRiskInputs g\<close>: the update \<open>g\<close> leaves alone every field the risk computation
  reads. \<open>scoresAfter\<close> is the score table the engine leaves on a member: for each key
  but \<open>__proto__\<close> the last catalog entry with that id decides. The \<open>ex\<close> constants are a
  small family used as concrete inputs.
\<close>

definition keepsRiskInputs :: "(FamilyMember \<Rightarrow> FamilyMember) \<Rightarrow> bool" where
  "keepsRiskInputs g = (\<forall>m. m_id (g m) = m_id m \<and> m_name (g m) = m_name m \<and> gender (g m) = gender m
      \<and> parentIds (g m) = parentIds m \<and> diseases (g m) = diseases m)"

definition scoresAfter ::
  "(real \<Rightarrow> string) \<Rightarrow> FamilyMember list \<Rightarrow> Disease list \<Rightarrow> FamilyMember \<Rightarrow> (string \<rightharpoonup> real)" where
  "scoresAfter toFixed1 members diseaseList member =
     (\<lambda>k. if k = ''__proto__'' then None
          else map_option (\<lambda>d. riskScore (calculateMemberDiseaseRisk toFixed1 member d (memberMapOf members)))
                 (find (\<lambda>d. d_id d = k) (rev diseaseList)))"

definition plainFormat :: "real \<Rightarrow> string" where
  "plainFormat r = []"

definition exDominant :: Disease where
  "exDominant = \<lparr>d_id = ''hd'', d_name = ''HD'', d_type = Dominant, prevalence = 0.0002,
     penetrance = 0.9, description = [], color = []\<rparr>"

definition exXLinked :: Disease where
  "exXLinked = \<lparr>d_id = ''xl'', d_name = ''XL'', d_type = XLinked, prevalence = 0.0001,
     penetrance = 1, description = [], color = []\<rparr>"

definition exZeroPrevalence :: Disease where
  "exZeroPrevalence = \<lparr>d_id = ''zp'', d_name = ''ZP'', d_type = Dominant, prevalence = 0,
     penetrance = 1, description = [], color = []\<rparr>"

definition exMother :: FamilyMember where
  "exMother = \<lparr>m_id = ''m1'', m_name = ''Mary'', age = 50, gender = Female, parentIds = [],
     childrenIds = [''c1''], diseases = [exDominant, exZeroPrevalence], riskScores = Map.empty,
     position = \<lparr>pos_x = 0, pos_y = 0, pos_z = 0\<rparr>, generation = 0\<rparr>"

definition exFather :: FamilyMember where
  "exFather = \<lparr>m_id = ''f1'', m_name = ''Frank'', age = 52, gender = Male, parentIds = [],
     childrenIds = [''c1''], diseases = [exXLinked], riskScores = [''old'' \<mapsto> 0.3],
     position = \<lparr>pos_x = 0, pos_y = 0, pos_z = 0\<rparr>, generation = 0\<rparr>"

definition exSon :: FamilyMember where
  "exSon = \<lparr>m_id = ''c1'', m_name = ''Sam'', age = 20, gender = Male, parentIds = [''m1'', ''f1''],
     childrenIds = [], diseases = [], riskScores = Map.empty,
     position = \<lparr>pos_x = 0, pos_y = 0, pos_z = 0\<rparr>, generation = 0\<rparr>"

definition exFamily :: "FamilyMember list" where
  "exFamily = [exMother, exFather, exSon]"

text \<open>
  A daughter of two fathers, both diagnosed with the X-linked example disease, and a
  catalog entry whose id is \<open>__proto__\<close>.
\<close>

definition exFather2 :: FamilyMember where
  "exFather2 = \<lparr>m_id = ''f2'', m_name = ''Fred'', age = 49, gender = Male, parentIds = [],
     childrenIds = [''c2''], diseases = [exXLinked], riskScores = Map.empty,
     position = \<lparr>pos_x = 0, pos_y = 0, pos_z = 0\<rparr>, generation = 0\<rparr>"

definition exDaughter :: FamilyMember where
  "exDaughter = \<lparr>m_id = ''c2'', m_name = ''Dana'', age = 18, gender = Female,
     parentIds = [''f1'', ''f2''], childrenIds = [], diseases = [], riskScores = Map.empty,
     position = \<lparr>pos_x = 0, pos_y = 0, pos_z = 0\<rparr>, generation = 0\<rparr>"

definition exTwoFathers :: "FamilyMember list" where
  "exTwoFathers = [exFather\<lparr>childrenIds := [''c2'']\<rparr>, exFather2, exDaughter]"


definition exZeroPenetrance :: Disease where
  "exZeroPenetrance = \<lparr>d_id = ''zn'', d_name = ''ZN'', d_type = Dominant, prevalence = 0.3,
     penetrance = 0, description = [], color = []\<rparr>"


section \<open>Auxiliary definitions for the layout engine proofs\<close>

text \<open>The objects that the traversal has put into some generation.\<close>

definition placedIn :: "(int \<times> nat list) list \<Rightarrow> nat set" where
  "placedIn generations = set (concat (map snd generations))"

text \<open>Two stores that agree in every field but \<open>generation\<close>.\<close>

definition sameGraph :: "FamilyMember list \<Rightarrow> FamilyMember list \<Rightarrow> bool" where
  "sameGraph ms ms' =
     (length ms' = length ms \<and> (\<forall>j. (ms' ! j)\<lparr>generation := 0\<rparr> = (ms ! j)\<lparr>generation := 0\<rparr>))"

text \<open>
  Invariant of the traversal relative to the initial store \<open>ms0\<close>: only \<open>generation\<close>
  changes, and only on placed objects; queued objects exist; a placed object is visited
  and carries the key of its generation list.
\<close>

definition storeInv ::
  "FamilyMember list \<Rightarrow> FamilyMember list \<Rightarrow> (nat \<times> int) list \<Rightarrow> string set
     \<Rightarrow> (int \<times> nat list) list \<Rightarrow> bool" where
  "storeInv ms0 ms q v gens =
     (sameGraph ms0 ms
      \<and> (\<forall>j. j \<notin> placedIn gens \<longrightarrow> ms ! j = ms0 ! j)
      \<and> (\<forall>e\<in>set q. fst e < length ms0)
      \<and> (\<forall>e\<in>set gens. \<forall>j\<in>set (snd e).
            j < length ms0 \<and> m_id (ms ! j) \<in> v \<and> generation (ms ! j) = fst e))"

text \<open>The referential symmetry of the data model: \<open>childrenIds\<close> mirrors \<open>parentIds\<close>.\<close>

definition symmetricLinks :: "FamilyMember list \<Rightarrow> bool" where
  "symmetricLinks ms =
     (\<forall>c\<in>set ms. \<forall>p\<in>set ms. (m_id c \<in> set (childrenIds p)) = (m_id p \<in> set (parentIds c)))"

text \<open>
  Invariants of the traversal on a pedigree with unique ids and symmetric links:
  a visited id belongs to a placed object; roots wait in the queue with generation 0 or
  are placed with generation 0; a queued or placed non-root is one more than a placed
  object that lists it as child; the queue is ordered by generation, spans at most two
  generations and lies above every placed object; a resolved child of a placed object
  is placed or queued, at most one generation further.
\<close>

definition visitedInv :: "FamilyMember list \<Rightarrow> string set \<Rightarrow> (int \<times> nat list) list \<Rightarrow> bool" where
  "visitedInv ms0 v gens = (\<forall>k\<in>v. \<exists>j\<in>placedIn gens. m_id (ms0 ! j) = k)"

definition rootInv ::
  "FamilyMember list \<Rightarrow> FamilyMember list \<Rightarrow> (nat \<times> int) list \<Rightarrow> (int \<times> nat list) list \<Rightarrow> bool" where
  "rootInv ms0 ms q gens =
     ((\<forall>r<length ms0. parentIds (ms0 ! r) = [] \<longrightarrow> (r, 0) \<in> set q \<or> r \<in> placedIn gens)
      \<and> (\<forall>e\<in>set q. parentIds (ms0 ! fst e) = [] \<longrightarrow> snd e = 0)
      \<and> (\<forall>j\<in>placedIn gens. parentIds (ms0 ! j) = [] \<longrightarrow> generation (ms ! j) = 0))"

definition parentInv ::
  "FamilyMember list \<Rightarrow> FamilyMember list \<Rightarrow> (nat \<times> int) list \<Rightarrow> (int \<times> nat list) list \<Rightarrow> bool" where
  "parentInv ms0 ms q gens =
     ((\<forall>e\<in>set q. parentIds (ms0 ! fst e) \<noteq> [] \<longrightarrow>
         (\<exists>j\<in>placedIn gens. m_id (ms0 ! fst e) \<in> set (childrenIds (ms0 ! j))
            \<and> snd e = generation (ms ! j) + 1))
      \<and> (\<forall>i\<in>placedIn gens. parentIds (ms0 ! i) \<noteq> [] \<longrightarrow>
         (\<exists>j\<in>placedIn gens. m_id (ms0 ! i) \<in> set (childrenIds (ms0 ! j))
            \<and> generation (ms ! i) = generation (ms ! j) + 1)))"

definition levelInv ::
  "FamilyMember list \<Rightarrow> (nat \<times> int) list \<Rightarrow> (int \<times> nat list) list \<Rightarrow> bool" where
  "levelInv ms q gens =
     (sorted (map snd q)
      \<and> (\<forall>e\<in>set q. \<forall>j\<in>placedIn gens. generation (ms ! j) \<le> snd e)
      \<and> (\<forall>e\<in>set q. \<forall>e'\<in>set q. snd e' \<le> snd e + 1))"

definition childInv ::
  "FamilyMember list \<Rightarrow> FamilyMember list \<Rightarrow> (nat \<times> int) list \<Rightarrow> string set
     \<Rightarrow> (int \<times> nat list) list \<Rightarrow> bool" where
  "childInv ms0 ms q v gens =
     (\<forall>j\<in>placedIn gens. \<forall>cid\<in>set (childrenIds (ms0 ! j)). \<forall>c. memberIndexOf ms0 cid = Some c \<longrightarrow>
        (c \<in> placedIn gens \<and> generation (ms ! c) \<le> generation (ms ! j) + 1)
        \<or> (cid \<notin> v \<and> (\<exists>g. (c, g) \<in> set q \<and> g \<le> generation (ms ! j) + 1)))"

definition layoutInv ::
  "FamilyMember list \<Rightarrow> FamilyMember list \<Rightarrow> (nat \<times> int) list \<Rightarrow> string set
     \<Rightarrow> (int \<times> nat list) list \<Rightarrow> bool" where
  "layoutInv ms0 ms q v gens =
     (storeInv ms0 ms q v gens \<and> visitedInv ms0 v gens \<and> rootInv ms0 ms q gens
      \<and> parentInv ms0 ms q gens \<and> levelInv ms q gens \<and> childInv ms0 ms q v gens)"

text \<open>
  A well-formed pedigree: unique ids, symmetric links, every person with parents has at
  least one parent in the list, and \<open>rank\<close> grows from parent to child (no cycle).
\<close>

definition wellFormedPedigree :: "(FamilyMember \<Rightarrow> nat) \<Rightarrow> FamilyMember list \<Rightarrow> bool" where
  "wellFormedPedigree rank ms =
     (distinct (map m_id ms) \<and> symmetricLinks ms
      \<and> (\<forall>c\<in>set ms. parentIds c \<noteq> [] \<longrightarrow> (\<exists>p\<in>set ms. m_id p \<in> set (parentIds c)))
      \<and> (\<forall>c\<in>set ms. \<forall>p\<in>set ms. m_id p \<in> set (parentIds c) \<longrightarrow> rank p < rank c))"

text \<open>A rank for the example pedigree.\<close>

definition exRank :: "FamilyMember \<Rightarrow> nat" where
  "exRank m = (if m_id m = ''P'' then 1 else if m_id m = ''C'' \<or> m_id m = ''D'' then 2 else 0)"

text \<open>The body of \<open>members.forEach\<close> in \<open>groupSiblings\<close>, and its invariant.\<close>

definition groupStep :: "FamilyMember list \<Rightarrow> nat list \<Rightarrow> nat \<Rightarrow> string set \<times> nat list list
    \<Rightarrow> string set \<times> nat list list" where
  "groupStep store members member state =
     (case state of (processed, groups) \<Rightarrow>
        if m_id (store ! member) \<in> processed then (processed, groups)
        else
          (let siblings = findSiblings store member members
           in (processed \<union> set (map (\<lambda>sibling. m_id (store ! sibling)) siblings),
               groups @ [siblings])))"

definition groupInv :: "FamilyMember list \<Rightarrow> nat list \<Rightarrow> string set \<times> nat list list \<Rightarrow> bool" where
  "groupInv store l state =
     (fst state = (\<lambda>j. m_id (store ! j)) ` set (concat (snd state))
      \<and> distinct (concat (snd state))
      \<and> set (concat (snd state)) \<subseteq> set l
      \<and> (\<forall>grp\<in>set (snd state). \<forall>a\<in>set grp. \<forall>b\<in>set l.
            parentIds (store ! a) \<noteq> [] \<and> haveSameParents (store ! a) (store ! b) \<longrightarrow> b \<in> set grp)
      \<and> (\<forall>grp\<in>set (snd state). \<forall>a\<in>set grp. \<forall>b\<in>set grp. haveSameParents (store ! a) (store ! b)))"

text \<open>The members of a sibling group stand \<open>siblingSpacing\<close> apart from \<open>startX\<close>, at height \<open>y\<close>.\<close>

definition groupPlaced ::
  "TreeLayoutConfig \<Rightarrow> FamilyMember list \<Rightarrow> real \<Rightarrow> nat list \<Rightarrow> real \<Rightarrow> FamilyMember list \<Rightarrow> bool" where
  "groupPlaced cfg store y grp startX res =
     (\<forall>k<length grp. position (res ! (grp ! k)) =
        \<lparr>pos_x = startX + real k * siblingSpacing cfg, pos_y = y,
         pos_z = calculateZPosition (store ! (grp ! k))\<rparr>)"

text \<open>
  A member as the form creates it (position 0, generation 0). In \<open>unlinkedFamily\<close> the
  parent \<open>R\<close> does not list its children \<open>X\<close> and \<open>Y\<close>; \<open>Y\<close> carries values of
  an earlier layout.
\<close>

definition newMember :: "string \<Rightarrow> string list \<Rightarrow> FamilyMember" where
  "newMember i ps = (person i ps [])\<lparr>position := \<lparr>pos_x = 0, pos_y = 0, pos_z = 0\<rparr>, generation := 0\<rparr>"

definition unlinkedFamily :: "FamilyMember list" where
  "unlinkedFamily = [newMember ''R'' [], newMember ''X'' [''R''], person ''Y'' [''R''] []]"


section \<open>Risk engine: lemmas\<close>



lemma memberMapOf_map:
  assumes "keepsRiskInputs g"
  shows "memberMapOf (map g ms) = map_option g \<circ> memberMapOf ms"
proof -
  have ids: "\<And>m. m_id (g m) = m_id m" using assms by (simp add: keepsRiskInputs_def)
  have "map (\<lambda>m. (m_id m, m)) (map g ms) = map (\<lambda>(k, v). (k, g v)) (map (\<lambda>m. (m_id m, m)) ms)"
    by (simp add: ids)
  then have "rev (map (\<lambda>m. (m_id m, m)) (map g ms)) = map (\<lambda>(k, v). (k, g v)) (rev (map (\<lambda>m. (m_id m, m)) ms))"
    by (simp add: rev_map)
  then show ?thesis
    unfolding memberMapOf_def by (simp only: map_of_map) 
qed

lemma hasDisease_keeps: "keepsRiskInputs g \<Longrightarrow> hasDisease (g m) d = hasDisease m d"
  by (simp add: hasDisease_def keepsRiskInputs_def)

lemma resolveParents_keeps:
  assumes "keepsRiskInputs g"
  shows "resolveParents (g m) (map_option g \<circ> mm) = map g (resolveParents m mm)"
proof -
  have "parentIds (g m) = parentIds m" using assms by (simp add: keepsRiskInputs_def)
  moreover have "List.map_filter (map_option g \<circ> mm) ks = map g (List.map_filter mm ks)" for ks
    by (induction ks) (auto simp: List.map_filter_simps split: option.splits)
  ultimately show ?thesis by (simp add: resolveParents_def)
qed

lemma find_defined: "(\<exists>y. find P xs = Some y) = (\<exists>x\<in>set xs. P x)"
  using find_None_iff [of P xs] by auto

lemma calculateParentalRisk_keeps:
  assumes "keepsRiskInputs g"
  shows "calculateParentalRisk (map g ps) d c = calculateParentalRisk ps d c"
proof -
  have f: "filter (\<lambda>p. hasDisease p d) (map g ps) = map g (filter (\<lambda>p. hasDisease p d) ps)"
    by (simp add: filter_map comp_def hasDisease_keeps [OF assms])
  have gd2: "gender (g p) = gender p" for p
    using assms by (auto simp: keepsRiskInputs_def)
  show ?thesis
    unfolding calculateParentalRisk_def f Let_def
    by (cases "d_type d")
       (auto simp add: calculateDominantRisk_def calculateRecessiveRisk_def
          calculateXLinkedRisk_def calculateMultifactorialRisk_def find_defined find_None_iff gd2 Let_def)
qed

lemma calculateMemberDiseaseRisk_keeps:
  assumes "keepsRiskInputs g"
  shows "calculateMemberDiseaseRisk tf (g m) d (map_option g \<circ> mm) = calculateMemberDiseaseRisk tf m d mm"
proof -
  have "m_id (g m) = m_id m" "m_name (g m) = m_name m" "gender (g m) = gender m"
    using assms by (simp_all add: keepsRiskInputs_def)
  then show ?thesis
    unfolding calculateMemberDiseaseRisk_def
    by (simp add: hasDisease_keeps [OF assms] resolveParents_keeps [OF assms]
          calculateParentalRisk_keeps [OF assms] Let_def)
qed

lemma keepsRiskInputs_scores: "keepsRiskInputs (\<lambda>m. m\<lparr>riskScores := S m\<rparr>)"
  by (simp add: keepsRiskInputs_def)

lemma calculateDiseaseRisks_keeps:
  assumes "keepsRiskInputs g"
  shows "calculateDiseaseRisks tf (map g ms) d =
     (map (\<lambda>m. calculateMemberDiseaseRisk tf m d (memberMapOf ms)) ms,
      map (\<lambda>m. (g m)\<lparr>riskScores := assignScore (riskScores (g m)) (d_id d)
             (riskScore (calculateMemberDiseaseRisk tf m d (memberMapOf ms)))\<rparr>) ms)"
  unfolding calculateDiseaseRisks_def Let_def
  by (simp add: memberMapOf_map [OF assms] calculateMemberDiseaseRisk_keeps [OF assms])

lemma calculateFamilyRisks_snoc:
  "calculateFamilyRisks tf ms (ds @ [d]) =
     (case calculateFamilyRisks tf ms ds of (risks, cur) \<Rightarrow>
        (case calculateDiseaseRisks tf cur d of (rs, cur') \<Rightarrow> (risks @ rs, cur')))"
  by (simp add: calculateFamilyRisks_def split: prod.splits)

lemma scoresAfter_snoc:
  "scoresAfter tf ms (ds @ [d]) m =
     assignScore (scoresAfter tf ms ds m) (d_id d)
       (riskScore (calculateMemberDiseaseRisk tf m d (memberMapOf ms)))"
  by (rule ext) (simp add: scoresAfter_def assignScore_def)

lemma calculateFamilyRisks_char:
  "calculateFamilyRisks tf ms ds =
     (concat (map (\<lambda>d. map (\<lambda>m. calculateMemberDiseaseRisk tf m d (memberMapOf ms)) ms) ds),
      map (\<lambda>m. m\<lparr>riskScores := scoresAfter tf ms ds m\<rparr>) ms)"
proof (induction ds rule: rev_induct)
  case Nil
  have "scoresAfter tf ms [] m = Map.empty" for m
    by (rule ext) (simp add: scoresAfter_def cong: if_cong)
  then show ?case by (simp add: calculateFamilyRisks_def)
next
  case (snoc d ds)
  show ?case
    by (simp add: calculateFamilyRisks_snoc snoc.IH
          calculateDiseaseRisks_keeps [OF keepsRiskInputs_scores] scoresAfter_snoc)
qed

lemma riskScore_unaffected:
  assumes "\<not> hasDisease m d"
  shows "riskScore (calculateMemberDiseaseRisk tf m d mm) =
     min ((if resolveParents m mm = [] then prevalence d
           else combineRisks (prevalence d)
                  (risk (calculateParentalRisk (resolveParents m mm) d (gender m)))) * penetrance d)
         0.95"
  using assms by (simp add: calculateMemberDiseaseRisk_def Let_def)








lemma stored_score_last:
  assumes "i < length ms"
  shows "riskScores (snd (calculateFamilyRisks tf ms ds) ! i) k =
     (if k = ''__proto__'' then None
      else map_option (\<lambda>d. riskScore (calculateMemberDiseaseRisk tf (ms ! i) d (memberMapOf ms)))
             (find (\<lambda>d. d_id d = k) (rev ds)))"
proof -
  have "snd (calculateFamilyRisks tf ms ds) = map (\<lambda>m. m\<lparr>riskScores := scoresAfter tf ms ds m\<rparr>) ms"
    by (simp only: calculateFamilyRisks_char snd_conv)
  then show ?thesis using assms by (simp add: scoresAfter_def)
qed

lemma find_unique:
  assumes "d \<in> set xs" "P d" "\<forall>x\<in>set xs. P x \<longrightarrow> x = d"
  shows "find P xs = Some d"
  using assms
proof (induction xs)
  case Nil
  then show ?case by simp
next
  case (Cons a xs)
  show ?case
  proof (cases "P a")
    case True
    then have "a = d" using Cons.prems(3) by simp
    then show ?thesis using True by simp
  next
    case False
    then have "d \<in> set xs" using Cons.prems(1,2) by auto
    moreover have "\<forall>x\<in>set xs. P x \<longrightarrow> x = d" using Cons.prems(3) by simp
    ultimately have "find P xs = Some d" using Cons.IH Cons.prems(2) by blast
    then show ?thesis using False by simp
  qed
qed

lemma find_distinct_ids:
  assumes "distinct (map d_id ds)" "d \<in> set ds"
  shows "find (\<lambda>x. d_id x = d_id d) (rev ds) = Some d"
proof (rule find_unique)
  show "d \<in> set (rev ds)" using assms by simp
  show "d_id d = d_id d" by simp
  have inj: "inj_on d_id (set ds)" using assms by (simp add: distinct_map)
  show "\<forall>x\<in>set (rev ds). d_id x = d_id d \<longrightarrow> x = d"
  proof (intro ballI impI)
    fix x assume "x \<in> set (rev ds)" and eq: "d_id x = d_id d"
    then have xs: "x \<in> set ds" by simp
    show "x = d" by (rule inj_onD [OF inj eq xs assms(2)])
  qed
qed

lemmas ex_defs = exDominant_def exXLinked_def exZeroPrevalence_def exMother_def exFather_def
  exSon_def exFamily_def plainFormat_def

lemma find_in_set:
  assumes "d \<in> set ds"
  shows "\<exists>d'. find (\<lambda>x. d_id x = d_id d) (rev ds) = Some d' \<and> d_id d' = d_id d"
proof (cases "find (\<lambda>x. d_id x = d_id d) (rev ds)")
  case None
  then show ?thesis using assms by (auto simp: find_None_iff)
next
  case (Some d')
  then show ?thesis by (auto simp: find_Some_iff)
qed

lemma hasDisease_id: "d_id d' = d_id d \<Longrightarrow> hasDisease m d' = hasDisease m d"
  by (simp add: hasDisease_def)

lemma calculateMemberDiseaseRisk_affected:
  assumes "hasDisease member disease"
  shows "calculateMemberDiseaseRisk tf member disease mm =
     \<lparr>memberId = m_id member, diseaseId = d_id disease, riskScore = 1,
      inheritancePattern = ''affected'',
      explanation = m_name member @ '' is already affected by '' @ d_name disease @ ''.''\<rparr>"
  using assms by (simp add: calculateMemberDiseaseRisk_def)

lemma risks_listed:
  assumes "i < length ms" "d \<in> set ds"
  shows "calculateMemberDiseaseRisk tf (ms ! i) d (memberMapOf ms) \<in> set (fst (calculateFamilyRisks tf ms ds))"
proof -
  have "ms ! i \<in> set ms" using assms(1) by simp
  then show ?thesis using assms(2) by (auto simp: calculateFamilyRisks_char)
qed

lemma stored_score_distinct:
  assumes "i < length ms" "d \<in> set ds" "distinct (map d_id ds)" "d_id d \<noteq> ''__proto__''"
  shows "riskScores (snd (calculateFamilyRisks tf ms ds) ! i) (d_id d) =
     Some (riskScore (calculateMemberDiseaseRisk tf (ms ! i) d (memberMapOf ms)))"
  by (simp add: stored_score_last [OF assms(1)] find_distinct_ids [OF assms(3,2)] assms(4))

lemma resolveParents_no_parentIds: "parentIds m = [] \<Longrightarrow> resolveParents m mm = []"
  by (simp add: resolveParents_def List.map_filter_simps)

lemma list_ex_find: "list_ex P xs = (find P xs \<noteq> None)"
  by (auto simp add: list_ex_iff find_None_iff)

lemma some_gender:
  "(xs \<noteq> []) = (list_ex (\<lambda>q. gender q = Male) xs \<or> list_ex (\<lambda>q. gender q = Female) xs)"
proof (cases xs)
  case Nil
  then show ?thesis by simp
next
  case (Cons a ys)
  then show ?thesis by (cases "gender a") simp_all
qed

lemma calculateFamilyRisks_reset:
  assumes "map (\<lambda>m. m\<lparr>riskScores := Map.empty\<rparr>) ms' = map (\<lambda>m. m\<lparr>riskScores := Map.empty\<rparr>) ms"
  shows "calculateFamilyRisks tf ms' ds = calculateFamilyRisks tf ms ds"
  unfolding calculateFamilyRisks_def assms ..





text \<open>
  Claim C1. A member diagnosed with the disease gets the result record with \<open>riskScore = 1\<close>
  and pattern \<open>affected\<close>, whatever the member map, the prevalence and the penetrance
  are: no parental rule, penetrance factor or 0.95 cap enters. The record is in the list
  \<open>calculateFamilyRisks\<close> returns. The score stored on the member is 1 as well, unless the
  disease id is \<open>__proto__\<close>, a key under which the score table stores nothing.
\<close>

theorem C1_already_affected:
  assumes "i < length members" and "disease \<in> set diseaseList"
    and "hasDisease (members ! i) disease"
  shows "calculateMemberDiseaseRisk toFixed1 (members ! i) disease memberMap =
           \<lparr>memberId = m_id (members ! i), diseaseId = d_id disease, riskScore = 1,
            inheritancePattern = ''affected'',
            explanation = m_name (members ! i) @ '' is already affected by '' @ d_name disease @ ''.''\<rparr>
       \<and> calculateMemberDiseaseRisk toFixed1 (members ! i) disease (memberMapOf members)
            \<in> set (fst (calculateFamilyRisks toFixed1 members diseaseList))
       \<and> (d_id disease \<noteq> ''__proto__'' \<longrightarrow>
            riskScores (snd (calculateFamilyRisks toFixed1 members diseaseList) ! i) (d_id disease) = Some 1)"
proof -
  obtain d' where d': "find (\<lambda>x. d_id x = d_id disease) (rev diseaseList) = Some d'"
      "d_id d' = d_id disease"
    using find_in_set [OF assms(2)] by blast
  have "hasDisease (members ! i) d'" using assms(3) hasDisease_id [OF d'(2)] by simp
  then have "riskScore (calculateMemberDiseaseRisk toFixed1 (members ! i) d' (memberMapOf members)) = 1"
    by (simp add: calculateMemberDiseaseRisk_affected)
  then have "d_id disease \<noteq> ''__proto__'' \<longrightarrow>
      riskScores (snd (calculateFamilyRisks toFixed1 members diseaseList) ! i) (d_id disease) = Some 1"
    by (simp add: stored_score_last [OF assms(1)] d'(1))
  then show ?thesis
    using calculateMemberDiseaseRisk_affected [OF assms(3)] risks_listed [OF assms(1,2)] by simp
qed

text \<open>C1 at a concrete input: the diagnosed mother of the example family.\<close>

theorem C1_already_affected_witness:
  "0 < length exFamily \<and> exDominant \<in> set [exDominant, exXLinked]
     \<and> hasDisease (exFamily ! 0) exDominant
     \<and> d_id exDominant \<noteq> ''__proto__''
     \<and> riskScore (calculateMemberDiseaseRisk plainFormat (exFamily ! 0) exDominant Map.empty) = 1
     \<and> riskScores (snd (calculateFamilyRisks plainFormat exFamily [exDominant, exXLinked]) ! 0) ''hd'' = Some 1"
proof -
  have h: "0 < length exFamily" "exDominant \<in> set [exDominant, exXLinked]"
    "hasDisease (exFamily ! 0) exDominant"
    by (simp_all add: ex_defs hasDisease_def)
  have d: "d_id exDominant = ''hd''" by (simp add: exDominant_def)
  show ?thesis
    using h C1_already_affected [OF h, of plainFormat Map.empty] unfolding d by simp
qed

text \<open>
  Claim C2. For a member without the diagnosis and with at least one resolved parent, with
  \<open>k\<close> the number of affected resolved parents, the parental risk \<open>p\<close> is: dominant
  0 / 0.5 / 0.75 for \<open>k\<close> = 0 / 1 / 2 (or more); recessive \<open>sqrt 0.01 * 0.25\<close> / 0.5 / 1;
  multifactorial \<open>0.05 * 2.5 ^ k\<close> capped at 0.8. The score is
  \<open>1 - (1 - prevalence) * (1 - p)\<close>, times penetrance, capped at 0.95.
\<close>

theorem C2_parental_pattern_table:
  assumes "\<not> hasDisease member disease"
    and "parents = resolveParents member memberMap" and "parents \<noteq> []"
    and "k = length (filter (\<lambda>q. hasDisease q disease) parents)"
    and "p = risk (calculateParentalRisk parents disease (gender member))"
  shows "(d_type disease = Dominant \<longrightarrow>
            (k = 0 \<longrightarrow> p = 0) \<and> (k = 1 \<longrightarrow> p = 0.5) \<and> (2 \<le> k \<longrightarrow> p = 0.75))
       \<and> (d_type disease = Recessive \<longrightarrow>
            (k = 0 \<longrightarrow> p = sqrt 0.01 * 0.25) \<and> (k = 1 \<longrightarrow> p = 0.5) \<and> (2 \<le> k \<longrightarrow> p = 1))
       \<and> (d_type disease = Multifactorial \<longrightarrow> p = min (0.05 * 2.5 ^ k) 0.8)
       \<and> riskScore (calculateMemberDiseaseRisk toFixed1 member disease memberMap) =
            min ((1 - (1 - prevalence disease) * (1 - p)) * penetrance disease) 0.95"
proof -
  have dom: "d_type disease = Dominant \<longrightarrow>
            (k = 0 \<longrightarrow> p = 0) \<and> (k = 1 \<longrightarrow> p = 0.5) \<and> (2 \<le> k \<longrightarrow> p = 0.75)"
    unfolding assms(4,5)
    by (simp add: calculateParentalRisk_def calculateDominantRisk_def Let_def)
  have rec: "d_type disease = Recessive \<longrightarrow>
            (k = 0 \<longrightarrow> p = sqrt 0.01 * 0.25) \<and> (k = 1 \<longrightarrow> p = 0.5) \<and> (2 \<le> k \<longrightarrow> p = 1)"
    unfolding assms(4,5)
    by (simp add: calculateParentalRisk_def calculateRecessiveRisk_def Let_def)
  have mul: "d_type disease = Multifactorial \<longrightarrow> p = min (0.05 * 2.5 ^ k) 0.8"
    unfolding assms(4,5)
    by (simp add: calculateParentalRisk_def calculateMultifactorialRisk_def Let_def)
  have "riskScore (calculateMemberDiseaseRisk toFixed1 member disease memberMap) =
            min ((1 - (1 - prevalence disease) * (1 - p)) * penetrance disease) 0.95"
    using assms(3) unfolding assms(2,5)
    by (simp add: riskScore_unaffected [OF assms(1)] combineRisks_def)
  with dom rec mul show ?thesis by blast
qed

text \<open>C2 at a concrete input: the son of an affected mother, dominant disease.\<close>

theorem C2_parental_pattern_table_witness:
  "\<not> hasDisease exSon exDominant
   \<and> resolveParents exSon (memberMapOf exFamily) = [exMother, exFather]
   \<and> length (filter (\<lambda>q. hasDisease q exDominant) [exMother, exFather]) = 1
   \<and> risk (calculateParentalRisk [exMother, exFather] exDominant (gender exSon)) = 0.5
   \<and> riskScore (calculateMemberDiseaseRisk plainFormat exSon exDominant (memberMapOf exFamily)) = 0.45009"
proof -
  have h1: "\<not> hasDisease exSon exDominant" by (simp add: ex_defs hasDisease_def)
  have h2: "[exMother, exFather] = resolveParents exSon (memberMapOf exFamily)"
    by (simp add: ex_defs resolveParents_def memberMapOf_def List.map_filter_simps)
  have h3: "[exMother, exFather] \<noteq> []" by simp
  have h4: "1 = length (filter (\<lambda>q. hasDisease q exDominant) [exMother, exFather])"
    by (simp add: ex_defs hasDisease_def)
  have d: "d_type exDominant = Dominant" "prevalence exDominant = 0.0002" "penetrance exDominant = 0.9"
    by (simp_all add: exDominant_def)
  note T = C2_parental_pattern_table [OF h1 h2 h3 h4 refl, of plainFormat]
  have p: "risk (calculateParentalRisk [exMother, exFather] exDominant (gender exSon)) = 0.5"
    using T d(1) by blast
  have "riskScore (calculateMemberDiseaseRisk plainFormat exSon exDominant (memberMapOf exFamily)) =
      min ((1 - (1 - 0.0002) * (1 - 0.5)) * 0.9) 0.95"
    using T unfolding p d(2,3) by blast
  then have s: "riskScore (calculateMemberDiseaseRisk plainFormat exSon exDominant (memberMapOf exFamily)) = 0.45009"
    by simp
  show ?thesis using h1 h2 [symmetric] h4 [symmetric] p s by simp
qed

text \<open>
  Claim C3 as stated fails for a daughter: 0.5 needs an affected mother and an affected
  father. The daughter of two fathers, both diagnosed, has two affected parents and gets
  0.25, under the label for one affected parent.
\<close>

theorem C3_two_fathers_counterexample:
  "d_type exXLinked = XLinked \<and> gender exDaughter = Female
   \<and> map m_id (resolveParents exDaughter (memberMapOf exTwoFathers)) = [''f1'', ''f2'']
   \<and> length (filter (\<lambda>q. hasDisease q exXLinked)
        (resolveParents exDaughter (memberMapOf exTwoFathers))) = 2
   \<and> calculateParentalRisk (resolveParents exDaughter (memberMapOf exTwoFathers)) exXLinked
        (gender exDaughter)
      = \<lparr>risk = 0.25, pattern = ''X-linked (one parent affected, female child)''\<rparr>
   \<and> risk (calculateParentalRisk (resolveParents exDaughter (memberMapOf exTwoFathers)) exXLinked
        (gender exDaughter)) \<noteq> 0.5"
proof -
  have ps: "resolveParents exDaughter (memberMapOf exTwoFathers)
      = [exFather\<lparr>childrenIds := [''c2'']\<rparr>, exFather2]"
    by (simp add: ex_defs exFather2_def exDaughter_def exTwoFathers_def resolveParents_def memberMapOf_def List.map_filter_simps)
  have r: "calculateParentalRisk [exFather\<lparr>childrenIds := [''c2'']\<rparr>, exFather2] exXLinked Female
      = \<lparr>risk = 0.25, pattern = ''X-linked (one parent affected, female child)''\<rparr>"
    by (simp add: ex_defs exFather2_def exDaughter_def exTwoFathers_def calculateParentalRisk_def calculateXLinkedRisk_def hasDisease_def)
  have g: "gender exDaughter = Female" by (simp add: exDaughter_def)
  show ?thesis
    unfolding ps g r by (simp add: ex_defs exFather2_def exDaughter_def exTwoFathers_def hasDisease_def)
qed

text \<open>
  Claim C3, amended. X-linked disease: for a male child the parental risk is 0.5 if an
  affected resolved parent is female and 0 otherwise, so an affected father alone gives 0.
  For a female child it is 0.5 if an affected female and an affected male parent are both
  present, otherwise 0.25 if any parent is affected, otherwise 0; in particular it is 0.25
  with exactly one affected parent.
\<close>

theorem C3_x_linked:
  assumes "d_type disease = XLinked"
    and "affected = filter (\<lambda>q. hasDisease q disease) parents"
    and "p = risk (calculateParentalRisk parents disease childGender)"
  shows "(childGender = Male \<longrightarrow>
            p = (if list_ex (\<lambda>q. gender q = Female) affected then 0.5 else 0))
       \<and> (childGender = Male \<longrightarrow>
            \<not> list_ex (\<lambda>q. gender q = Female \<and> hasDisease q disease) parents \<longrightarrow> p = 0)
       \<and> (childGender = Female \<longrightarrow>
            p = (if list_ex (\<lambda>q. gender q = Female) affected
                    \<and> list_ex (\<lambda>q. gender q = Male) affected then 0.5
                 else if affected \<noteq> [] then 0.25 else 0))
       \<and> (childGender = Female \<longrightarrow> length affected = 1 \<longrightarrow> p = 0.25)"
proof -
  have p: "p = risk (calculateXLinkedRisk affected parents childGender)"
    unfolding assms(2,3) using assms(1) by (simp add: calculateParentalRisk_def)
  have male: "childGender = Male \<longrightarrow>
            p = (if list_ex (\<lambda>q. gender q = Female) affected then 0.5 else 0)"
    unfolding p by (simp add: calculateXLinkedRisk_def Let_def list_ex_find)
  have "list_ex (\<lambda>q. gender q = Female) affected =
        list_ex (\<lambda>q. gender q = Female \<and> hasDisease q disease) parents"
    unfolding assms(2) by (auto simp: list_ex_iff)
  with male have male0: "childGender = Male \<longrightarrow>
            \<not> list_ex (\<lambda>q. gender q = Female \<and> hasDisease q disease) parents \<longrightarrow> p = 0"
    by simp
  have female: "childGender = Female \<longrightarrow>
            p = (if list_ex (\<lambda>q. gender q = Female) affected
                    \<and> list_ex (\<lambda>q. gender q = Male) affected then 0.5
                 else if affected \<noteq> [] then 0.25 else 0)"
    unfolding p some_gender [of affected]
    by (auto simp add: calculateXLinkedRisk_def Let_def list_ex_find)
  have f1: "childGender = Female \<longrightarrow> length affected = 1 \<longrightarrow> p = 0.25"
  proof (intro impI)
    assume g: "childGender = Female" and l: "length affected = 1"
    then obtain a where a: "affected = [a]" by (cases affected) auto
    show "p = 0.25"
      unfolding p a using g by (cases "gender a") (simp_all add: calculateXLinkedRisk_def Let_def)
  qed
  from male male0 female f1 show ?thesis by blast
qed

text \<open>
  Amended C3 at concrete inputs: a son and a daughter of an unaffected mother and an
  affected father.
\<close>

theorem C3_x_linked_witness:
  "d_type exXLinked = XLinked
   \<and> filter (\<lambda>q. hasDisease q exXLinked) [exMother, exFather] = [exFather]
   \<and> gender exSon = Male
   \<and> \<not> list_ex (\<lambda>q. gender q = Female \<and> hasDisease q exXLinked) [exMother, exFather]
   \<and> risk (calculateParentalRisk [exMother, exFather] exXLinked (gender exSon)) = 0
   \<and> gender exDaughter = Female \<and> length [exFather] = 1
   \<and> risk (calculateParentalRisk [exMother, exFather] exXLinked (gender exDaughter)) = 0.25"
proof -
  have h1: "d_type exXLinked = XLinked" by (simp add: exXLinked_def)
  have h2: "[exFather] = filter (\<lambda>q. hasDisease q exXLinked) [exMother, exFather]"
    by (simp add: ex_defs hasDisease_def)
  have g: "gender exSon = Male" "gender exDaughter = Female" by (simp_all add: exSon_def exDaughter_def)
  have n: "\<not> list_ex (\<lambda>q. gender q = Female \<and> hasDisease q exXLinked) [exMother, exFather]"
    by (simp add: ex_defs hasDisease_def)
  show ?thesis
    using C3_x_linked [OF h1 h2 refl, of "gender exSon"]
      C3_x_linked [OF h1 h2 refl, of "gender exDaughter"] h1 h2 [symmetric] g n by simp
qed

text \<open>
  Claim C4. A member with no parents and without the diagnosis gets exactly
  \<open>min (prevalence * penetrance) 0.95\<close> as the computed score, whatever the member map
  is, and the record carrying it is in the list \<open>calculateFamilyRisks\<close> returns. The score
  stored on the member is the same when the catalog repeats no id and the id is not
  \<open>__proto__\<close>.
\<close>

theorem C4_no_parents_no_diagnosis:
  assumes "i < length members" and "disease \<in> set diseaseList"
    and "\<not> hasDisease (members ! i) disease" and "parentIds (members ! i) = []"
  shows "riskScore (calculateMemberDiseaseRisk toFixed1 (members ! i) disease memberMap) =
           min (prevalence disease * penetrance disease) 0.95
       \<and> calculateMemberDiseaseRisk toFixed1 (members ! i) disease (memberMapOf members)
            \<in> set (fst (calculateFamilyRisks toFixed1 members diseaseList))
       \<and> (distinct (map d_id diseaseList) \<and> d_id disease \<noteq> ''__proto__'' \<longrightarrow>
            riskScores (snd (calculateFamilyRisks toFixed1 members diseaseList) ! i) (d_id disease) =
              Some (min (prevalence disease * penetrance disease) 0.95))"
proof -
  have s: "riskScore (calculateMemberDiseaseRisk toFixed1 (members ! i) disease mm) =
           min (prevalence disease * penetrance disease) 0.95" for mm
    by (simp add: riskScore_unaffected [OF assms(3)] resolveParents_no_parentIds [OF assms(4)])
  have "riskScores (snd (calculateFamilyRisks toFixed1 members diseaseList) ! i) (d_id disease) =
              Some (min (prevalence disease * penetrance disease) 0.95)"
    if "distinct (map d_id diseaseList)" "d_id disease \<noteq> ''__proto__''"
    by (simp add: stored_score_distinct [OF assms(1,2) that] s)
  then show ?thesis
    using s [of memberMap] risks_listed [OF assms(1,2)] by blast
qed

text \<open>C4 at a concrete input: the father of the example family.\<close>

theorem C4_no_parents_no_diagnosis_witness:
  "1 < length exFamily \<and> exDominant \<in> set [exDominant, exXLinked]
   \<and> \<not> hasDisease (exFamily ! 1) exDominant \<and> parentIds (exFamily ! 1) = []
   \<and> distinct (map d_id [exDominant, exXLinked]) \<and> d_id exDominant \<noteq> ''__proto__''
   \<and> riskScore (calculateMemberDiseaseRisk plainFormat (exFamily ! 1) exDominant Map.empty) = 0.00018
   \<and> riskScores (snd (calculateFamilyRisks plainFormat exFamily [exDominant, exXLinked]) ! 1) ''hd''
        = Some 0.00018"
proof -
  have h: "1 < length exFamily" "exDominant \<in> set [exDominant, exXLinked]"
    "\<not> hasDisease (exFamily ! 1) exDominant" "parentIds (exFamily ! 1) = []"
    by (simp_all add: ex_defs hasDisease_def)
  have g: "distinct (map d_id [exDominant, exXLinked])" "d_id exDominant \<noteq> ''__proto__''"
    by (simp_all add: ex_defs)
  have d: "d_id exDominant = ''hd''" "prevalence exDominant = 0.0002" "penetrance exDominant = 0.9"
    by (simp_all add: exDominant_def)
  note T = C4_no_parents_no_diagnosis [OF h, of plainFormat Map.empty]
  have c: "riskScore (calculateMemberDiseaseRisk plainFormat (exFamily ! 1) exDominant Map.empty)
        = min (0.0002 * 0.9) 0.95"
    using T unfolding d by blast
  have "riskScores (snd (calculateFamilyRisks plainFormat exFamily [exDominant, exXLinked]) ! 1) ''hd''
        = Some (min (0.0002 * 0.9) 0.95)"
    using T g unfolding d by blast
  then show ?thesis using h g c by simp
qed

text \<open>
  Claim C5 as stated fails: with prevalence 0 and an affected parent the noisy-OR
  combination keeps the parental risk. The son of the example family gets 0.5 for a
  dominant disease of prevalence 0 and penetrance 1.
\<close>

theorem C5_zero_prevalence_counterexample:
  "prevalence exZeroPrevalence = 0
   \<and> \<not> hasDisease (exFamily ! 2) exZeroPrevalence
   \<and> riskScore (calculateMemberDiseaseRisk plainFormat (exFamily ! 2) exZeroPrevalence
        (memberMapOf exFamily)) = 0.5
   \<and> riskScores (snd (calculateFamilyRisks plainFormat exFamily [exZeroPrevalence]) ! 2)
        (d_id exZeroPrevalence) = Some 0.5
   \<and> riskScores (snd (calculateFamilyRisks plainFormat exFamily [exZeroPrevalence]) ! 2)
        (d_id exZeroPrevalence) \<noteq> Some 0"
proof -
  have h: "2 < length exFamily" by (simp add: exFamily_def)
  have n: "\<not> hasDisease (exFamily ! 2) exZeroPrevalence" by (simp add: ex_defs hasDisease_def)
  have ps: "resolveParents (exFamily ! 2) (memberMapOf exFamily) = [exMother, exFather]"
    by (simp add: ex_defs resolveParents_def memberMapOf_def List.map_filter_simps)
  have pr: "risk (calculateParentalRisk [exMother, exFather] exZeroPrevalence Male) = 0.5"
    by (simp add: ex_defs calculateParentalRisk_def calculateDominantRisk_def hasDisease_def)
  have g: "gender (exFamily ! 2) = Male" by (simp add: ex_defs)
  have s: "riskScore (calculateMemberDiseaseRisk plainFormat (exFamily ! 2) exZeroPrevalence (memberMapOf exFamily)) = 0.5"
    unfolding riskScore_unaffected [OF n] ps g pr
    by (simp add: exZeroPrevalence_def combineRisks_def)
  then have "riskScores (snd (calculateFamilyRisks plainFormat exFamily [exZeroPrevalence]) ! 2)
        (d_id exZeroPrevalence) = Some 0.5"
    by (simp add: stored_score_last [OF h] exZeroPrevalence_def)
  then show ?thesis using n s by (simp add: exZeroPrevalence_def)
qed

text \<open>
  Claim C5, amended. For a member without the diagnosis the result record \<open>r\<close>, which is
  in the list \<open>calculateFamilyRisks\<close> returns, has score 0 when the penetrance is 0,
  whatever the parents are. When the prevalence is 0 the score is 0 if no parent resolves
  or the parental risk \<open>p\<close> of the inheritance pattern is 0; with a resolved parent it is
  \<open>(1 - (1 - 0) * (1 - p))\<close> times penetrance, capped at 0.95. The score stored on the
  member is that of \<open>r\<close> when the catalog repeats no id and the id is not \<open>__proto__\<close>.
\<close>

theorem C5_zero_parameters:
  assumes "i < length members" and "disease \<in> set diseaseList"
    and "\<not> hasDisease (members ! i) disease"
    and "parents = resolveParents (members ! i) (memberMapOf members)"
    and "p = risk (calculateParentalRisk parents disease (gender (members ! i)))"
    and "r = calculateMemberDiseaseRisk toFixed1 (members ! i) disease (memberMapOf members)"
  shows "r \<in> set (fst (calculateFamilyRisks toFixed1 members diseaseList))
       \<and> (penetrance disease = 0 \<longrightarrow> riskScore r = 0)
       \<and> (prevalence disease = 0 \<longrightarrow> parents = [] \<longrightarrow> riskScore r = 0)
       \<and> (prevalence disease = 0 \<longrightarrow> p = 0 \<longrightarrow> riskScore r = 0)
       \<and> (prevalence disease = 0 \<longrightarrow> parents \<noteq> [] \<longrightarrow>
            riskScore r = min ((1 - (1 - 0) * (1 - p)) * penetrance disease) 0.95)
       \<and> (distinct (map d_id diseaseList) \<and> d_id disease \<noteq> ''__proto__'' \<longrightarrow>
            riskScores (snd (calculateFamilyRisks toFixed1 members diseaseList) ! i) (d_id disease)
              = Some (riskScore r))"
proof -
  have s: "riskScore r = min ((if parents = [] then prevalence disease
           else combineRisks (prevalence disease) p) * penetrance disease) 0.95"
    unfolding assms(4,5,6) riskScore_unaffected [OF assms(3)] ..
  have l: "r \<in> set (fst (calculateFamilyRisks toFixed1 members diseaseList))"
    unfolding assms(6) by (rule risks_listed [OF assms(1,2)])
  have a: "penetrance disease = 0 \<longrightarrow> riskScore r = 0" unfolding s by simp
  have b: "prevalence disease = 0 \<longrightarrow> parents = [] \<longrightarrow> riskScore r = 0" unfolding s by simp
  have c: "prevalence disease = 0 \<longrightarrow> p = 0 \<longrightarrow> riskScore r = 0"
    unfolding s by (simp add: combineRisks_def)
  have d: "prevalence disease = 0 \<longrightarrow> parents \<noteq> [] \<longrightarrow>
            riskScore r = min ((1 - (1 - 0) * (1 - p)) * penetrance disease) 0.95"
    unfolding s by (simp add: combineRisks_def)
  have e: "riskScores (snd (calculateFamilyRisks toFixed1 members diseaseList) ! i) (d_id disease)
              = Some (riskScore r)"
    if "distinct (map d_id diseaseList)" "d_id disease \<noteq> ''__proto__''"
    unfolding assms(6) by (rule stored_score_distinct [OF assms(1,2) that])
  from l a b c d e show ?thesis by blast
qed

text \<open>
  Amended C5 at concrete inputs: the parentless father and the son with prevalence 0, and
  the son with penetrance 0.
\<close>

theorem C5_zero_parameters_witness:
  "1 < length exFamily \<and> 2 < length exFamily
   \<and> \<not> hasDisease (exFamily ! 1) exZeroPrevalence
   \<and> \<not> hasDisease (exFamily ! 2) exZeroPrevalence
   \<and> \<not> hasDisease (exFamily ! 2) exZeroPenetrance
   \<and> prevalence exZeroPrevalence = 0 \<and> penetrance exZeroPenetrance = 0
   \<and> resolveParents (exFamily ! 1) (memberMapOf exFamily) = []
   \<and> resolveParents (exFamily ! 2) (memberMapOf exFamily) = [exMother, exFather]
   \<and> riskScore (calculateMemberDiseaseRisk plainFormat (exFamily ! 1) exZeroPrevalence
        (memberMapOf exFamily)) = 0
   \<and> risk (calculateParentalRisk [exMother, exFather] exZeroPrevalence (gender (exFamily ! 2))) = 0.5
   \<and> riskScore (calculateMemberDiseaseRisk plainFormat (exFamily ! 2) exZeroPrevalence
        (memberMapOf exFamily)) = 0.5
   \<and> riskScore (calculateMemberDiseaseRisk plainFormat (exFamily ! 2) exZeroPenetrance
        (memberMapOf exFamily)) = 0"
proof -
  have h: "1 < length exFamily" "2 < length exFamily"
    "exZeroPrevalence \<in> set [exZeroPrevalence, exZeroPenetrance]"
    "exZeroPenetrance \<in> set [exZeroPrevalence, exZeroPenetrance]"
    "\<not> hasDisease (exFamily ! 1) exZeroPrevalence"
    "\<not> hasDisease (exFamily ! 2) exZeroPrevalence"
    "\<not> hasDisease (exFamily ! 2) exZeroPenetrance"
    by (simp_all add: ex_defs exZeroPenetrance_def hasDisease_def)
  have p1: "[] = resolveParents (exFamily ! 1) (memberMapOf exFamily)"
    by (simp add: ex_defs resolveParents_def List.map_filter_simps)
  have p2: "[exMother, exFather] = resolveParents (exFamily ! 2) (memberMapOf exFamily)"
    by (simp add: ex_defs resolveParents_def memberMapOf_def List.map_filter_simps)
  have z: "prevalence exZeroPrevalence = 0" "penetrance exZeroPenetrance = 0"
    by (simp_all add: exZeroPrevalence_def exZeroPenetrance_def)
  have a: "riskScore (calculateMemberDiseaseRisk plainFormat (exFamily ! 1) exZeroPrevalence
        (memberMapOf exFamily)) = 0"
    using C5_zero_parameters [OF h(1,3,5) p1 refl refl, of plainFormat] z by blast
  have pr: "risk (calculateParentalRisk [exMother, exFather] exZeroPrevalence (gender (exFamily ! 2))) = 0.5"
    by (simp add: ex_defs calculateParentalRisk_def calculateDominantRisk_def hasDisease_def)
  have pn: "penetrance exZeroPrevalence = 1" by (simp add: exZeroPrevalence_def)
  have "riskScore (calculateMemberDiseaseRisk plainFormat (exFamily ! 2) exZeroPrevalence
        (memberMapOf exFamily))
      = min ((1 - (1 - 0) * (1 - risk (calculateParentalRisk [exMother, exFather] exZeroPrevalence
               (gender (exFamily ! 2))))) * penetrance exZeroPrevalence) 0.95"
    using C5_zero_parameters [OF h(2,3,6) p2 refl refl, of plainFormat] z by blast
  then have b: "riskScore (calculateMemberDiseaseRisk plainFormat (exFamily ! 2) exZeroPrevalence
        (memberMapOf exFamily)) = 0.5"
    unfolding pr pn by simp
  have c: "riskScore (calculateMemberDiseaseRisk plainFormat (exFamily ! 2) exZeroPenetrance
        (memberMapOf exFamily)) = 0"
    using C5_zero_parameters [OF h(2,4,7) p2 refl refl, of plainFormat] z by blast
  show ?thesis
    using h(1,2,5,6,7) z p1 [symmetric] p2 [symmetric] pr a b c by blast
qed





section \<open>Layout engine: lemmas\<close>


lemma setGeneration_length [simp]: "length (setGeneration ms i g) = length ms"
  by (simp add: setGeneration_def)

lemma setGeneration_nth:
  "setGeneration ms i g ! j =
     (ms ! j)\<lparr>generation := (if j = i \<and> i < length ms then g else generation (ms ! j))\<rparr>"
  by (cases "i < length ms"; cases "j = i") (simp_all add: setGeneration_def list_update_beyond)

lemma setGeneration_ids [simp]: "map m_id (setGeneration ms i g) = map m_id ms"
  by (rule nth_equalityI) (simp_all add: setGeneration_nth)

lemma memberIndexOf_setGeneration [simp]:
  "memberIndexOf (setGeneration ms i g) = memberIndexOf ms"
  by (simp add: memberIndexOf_def)

lemma childEntries_setGeneration [simp]:
  "childEntries (setGeneration ms i g) v j g' = childEntries ms v j g'"
  by (simp add: childEntries_def setGeneration_nth)

lemma memberIndexOf_SomeD:
  assumes "memberIndexOf ms k = Some c"
  shows "c < length ms \<and> m_id (ms ! c) = k"
proof -
  have "(k, c) \<in> set (zip (map m_id ms) [0..<length ms])"
    using assms by (auto simp: memberIndexOf_def dest: map_of_SomeD)
  then show ?thesis by (auto simp: set_zip)
qed

lemma memberIndexOf_distinct:
  assumes "distinct (map m_id ms)" and "j < length ms"
  shows "memberIndexOf ms (m_id (ms ! j)) = Some j"
proof -
  have d: "distinct (map fst (rev (zip (map m_id ms) [0..<length ms])))"
    using assms(1) by (simp add: rev_map [symmetric] map_fst_zip)
  have "(m_id (ms ! j), j) \<in> set (zip (map m_id ms) [0..<length ms])"
    using assms(2) by (auto simp: set_zip intro!: exI [of _ j])
  then have "(m_id (ms ! j), j) \<in> set (rev (zip (map m_id ms) [0..<length ms]))" by simp
  then show ?thesis
    unfolding memberIndexOf_def using d by (rule map_of_is_SomeI [rotated])
qed

lemma set_map_filter: "set (List.map_filter f xs) = {y. \<exists>x\<in>set xs. f x = Some y}"
  by (induction xs) (auto simp: List.map_filter_simps split: option.splits)

lemma in_childEntries:
  "(e \<in> set (childEntries ms v i g)) =
     (snd e = g + 1 \<and> (\<exists>cid\<in>set (childrenIds (ms ! i)). memberIndexOf ms cid = Some (fst e) \<and> cid \<notin> v))"
  by (cases e) (auto simp: childEntries_def set_map_filter split: option.splits if_splits)

lemma childEntries_in_range: "e \<in> set (childEntries ms v i g) \<Longrightarrow> fst e < length ms"
  by (auto simp: in_childEntries dest: memberIndexOf_SomeD)

lemma bfsLoop_rule:
  assumes init: "I ms q v gens"
    and skip: "\<And>ms i g q v gens. I ms ((i, g) # q) v gens \<Longrightarrow> m_id (ms ! i) \<in> v \<Longrightarrow> I ms q v gens"
    and visit: "\<And>ms i g q v gens. I ms ((i, g) # q) v gens \<Longrightarrow> m_id (ms ! i) \<notin> v \<Longrightarrow>
       I (setGeneration ms i g) (q @ childEntries ms (insert (m_id (ms ! i)) v) i g)
         (insert (m_id (ms ! i)) v) (pushGeneration g i gens)"
    and final: "\<And>ms v gens. I ms [] v gens \<Longrightarrow> Q ms gens"
  shows "Q (fst (bfsLoop ms q v gens)) (snd (bfsLoop ms q v gens))"
  using init
proof (induction ms q v gens rule: bfsLoop.induct)
  case (1 members visited generations)
  then show ?case by (simp add: final)
next
  case (2 members i g queue visited generations)
  show ?case
  proof (cases "m_id (members ! i) \<in> visited")
    case True
    then show ?thesis using 2 skip by simp
  next
    case False
    have "I (setGeneration members i g)
            (queue @ childEntries members (insert (m_id (members ! i)) visited) i g)
            (insert (m_id (members ! i)) visited) (pushGeneration g i generations)"
      using visit [OF "2.prems" False] .
    then show ?thesis using "2.IH"(2) [OF False refl refl refl] False
      by (simp add: Let_def)
  qed
qed

lemma pushGeneration_Nil: "pushGeneration g i [] = [(g, [i])]"
  by (simp add: pushGeneration_def)

lemma pushGeneration_Cons:
  "pushGeneration g i ((g', l) # gens) =
     (if g' = g then (g, l @ [i]) # gens else (g', l) # pushGeneration g i gens)"
  by (simp add: pushGeneration_def)

lemma placedIn_pushGeneration: "placedIn (pushGeneration g i gens) = insert i (placedIn gens)"
proof (induction gens)
  case Nil
  show ?case by (simp add: pushGeneration_Nil placedIn_def)
next
  case (Cons p gens)
  obtain g' l where p: "p = (g', l)" by (cases p)
  show ?case using Cons by (auto simp: p pushGeneration_Cons placedIn_def)
qed

lemma pushGeneration_entry:
  assumes "(g', l) \<in> set (pushGeneration g i gens)" and "j \<in> set l"
  shows "(j = i \<and> g' = g) \<or> (\<exists>l0. (g', l0) \<in> set gens \<and> j \<in> set l0)"
  using assms
proof (induction gens)
  case Nil
  then show ?case by (simp add: pushGeneration_Nil)
next
  case (Cons p gens)
  obtain g0 l0 where p: "p = (g0, l0)" by (cases p)
  show ?case using Cons by (auto simp: p pushGeneration_Cons split: if_splits)
qed

lemma pushGeneration_keys:
  "distinct (map fst gens) \<Longrightarrow> distinct (map fst (pushGeneration g i gens))"
proof (induction gens)
  case Nil
  show ?case by (simp add: pushGeneration_Nil)
next
  case (Cons p gens)
  obtain g0 l0 where p: "p = (g0, l0)" by (cases p)
  have "fst ` set (pushGeneration g i gens) = insert g (fst ` set gens)"
  proof (induction gens)
    case Nil show ?case by (simp add: pushGeneration_Nil)
  next
    case (Cons q gens)
    obtain g1 l1 where q: "q = (g1, l1)" by (cases q)
    show ?case using Cons by (auto simp: q pushGeneration_Cons)
  qed
  then show ?case using Cons by (auto simp: p pushGeneration_Cons)
qed

lemma erase_eq_fields:
  assumes "(a :: FamilyMember)\<lparr>generation := 0\<rparr> = b\<lparr>generation := 0\<rparr>"
  shows "m_id a = m_id b" "parentIds a = parentIds b" "childrenIds a = childrenIds b"
    "position a = position b"
proof -
  have "m_id (a\<lparr>generation := 0\<rparr>) = m_id (b\<lparr>generation := 0\<rparr>)" using assms by simp
  then show "m_id a = m_id b" by simp
  have "parentIds (a\<lparr>generation := 0\<rparr>) = parentIds (b\<lparr>generation := 0\<rparr>)" using assms by simp
  then show "parentIds a = parentIds b" by simp
  have "childrenIds (a\<lparr>generation := 0\<rparr>) = childrenIds (b\<lparr>generation := 0\<rparr>)" using assms by simp
  then show "childrenIds a = childrenIds b" by simp
  have "position (a\<lparr>generation := 0\<rparr>) = position (b\<lparr>generation := 0\<rparr>)" using assms by simp
  then show "position a = position b" by simp
qed

lemma erase_eq_generation_eq:
  assumes "(a :: FamilyMember)\<lparr>generation := 0\<rparr> = b\<lparr>generation := 0\<rparr>" and "generation a = generation b"
  shows "a = b"
proof -
  have "a = (a\<lparr>generation := 0\<rparr>)\<lparr>generation := generation a\<rparr>" by simp
  also have "\<dots> = (b\<lparr>generation := 0\<rparr>)\<lparr>generation := generation b\<rparr>" using assms by simp
  also have "\<dots> = b" by simp
  finally show ?thesis .
qed

lemma sameGraph_refl: "sameGraph ms ms"
  by (simp add: sameGraph_def)

lemma sameGraph_sym: "sameGraph ms ms' \<Longrightarrow> sameGraph ms' ms"
  by (simp add: sameGraph_def)

lemma sameGraph_trans: "sameGraph a b \<Longrightarrow> sameGraph b c \<Longrightarrow> sameGraph a c"
  by (simp add: sameGraph_def)

lemma sameGraph_setGeneration: "sameGraph ms ms' \<Longrightarrow> sameGraph ms (setGeneration ms' i g)"
  by (simp add: sameGraph_def setGeneration_nth)

lemma sameGraph_fields:
  assumes "sameGraph ms ms'"
  shows "m_id (ms' ! j) = m_id (ms ! j)" "parentIds (ms' ! j) = parentIds (ms ! j)"
    "childrenIds (ms' ! j) = childrenIds (ms ! j)" "position (ms' ! j) = position (ms ! j)"
    "length ms' = length ms"
  using assms erase_eq_fields [of "ms' ! j" "ms ! j"] by (simp_all add: sameGraph_def)

lemma sameGraph_ids: "sameGraph ms ms' \<Longrightarrow> map m_id ms' = map m_id ms"
  by (rule nth_equalityI) (simp_all add: sameGraph_fields)

lemma sameGraph_memberIndexOf: "sameGraph ms ms' \<Longrightarrow> memberIndexOf ms' = memberIndexOf ms"
  by (simp add: memberIndexOf_def sameGraph_ids sameGraph_fields(5))

lemma sameGraph_childEntries: "sameGraph ms ms' \<Longrightarrow> childEntries ms' v i g = childEntries ms v i g"
  by (simp add: childEntries_def sameGraph_memberIndexOf sameGraph_fields(3))

lemma sameGraph_eqI:
  assumes "sameGraph ms ms'" and "\<And>j. j < length ms \<Longrightarrow> generation (ms' ! j) = generation (ms ! j)"
  shows "ms' = ms"
proof (rule nth_equalityI)
  show "length ms' = length ms" using assms(1) by (simp add: sameGraph_def)
next
  fix j assume "j < length ms'"
  then have "j < length ms" using assms(1) by (simp add: sameGraph_def)
  then have "generation (ms' ! j) = generation (ms ! j)" by (rule assms(2))
  moreover have "(ms' ! j)\<lparr>generation := 0\<rparr> = (ms ! j)\<lparr>generation := 0\<rparr>"
    using assms(1) by (simp add: sameGraph_def)
  ultimately show "ms' ! j = ms ! j" by (rule erase_eq_generation_eq [rotated])
qed

lemma bfsLoop_sameGraph:
  assumes "sameGraph ms ms'"
  shows "snd (bfsLoop ms' q v gens) = snd (bfsLoop ms q v gens)
       \<and> sameGraph (fst (bfsLoop ms q v gens)) (fst (bfsLoop ms' q v gens))"
  using assms
proof (induction ms q v gens arbitrary: ms' rule: bfsLoop.induct)
  case (1 members visited generations)
  then show ?case by simp
next
  case (2 members i g queue visited generations)
  note sg = "2.prems"
  have id: "m_id (ms' ! i) = m_id (members ! i)" using sg by (rule sameGraph_fields)
  show ?case
  proof (cases "m_id (members ! i) \<in> visited")
    case True
    then show ?thesis using "2.IH"(1) [OF True sg] id by simp
  next
    case False
    have sg': "sameGraph (setGeneration members i g) (setGeneration ms' i g)"
      using sg by (simp add: sameGraph_def setGeneration_nth)
    have ce: "childEntries ms' (insert (m_id (members ! i)) visited) i g
            = childEntries members (insert (m_id (members ! i)) visited) i g"
      using sg by (rule sameGraph_childEntries)
    show ?thesis
      using "2.IH"(2) [OF False refl refl refl sg'] False
      by (simp add: id ce Let_def)
  qed
qed

lemma storeInv_skip:
  assumes "storeInv ms0 ms ((i, g) # q) v gens"
  shows "storeInv ms0 ms q v gens"
  using assms by (simp add: storeInv_def)

lemma storeInv_visit:
  assumes inv: "storeInv ms0 ms ((i, g) # q) v gens" and nv: "m_id (ms ! i) \<notin> v"
  shows "storeInv ms0 (setGeneration ms i g) (q @ childEntries ms (insert (m_id (ms ! i)) v) i g)
           (insert (m_id (ms ! i)) v) (pushGeneration g i gens)"
proof -
  have sg: "sameGraph ms0 ms" and len: "length ms = length ms0" and i: "i < length ms0"
    using inv by (simp_all add: storeInv_def sameGraph_def)
  have a: "sameGraph ms0 (setGeneration ms i g)" using sg by (rule sameGraph_setGeneration)
  have b: "\<forall>j. j \<notin> placedIn (pushGeneration g i gens) \<longrightarrow> setGeneration ms i g ! j = ms0 ! j"
    using inv by (simp add: storeInv_def placedIn_pushGeneration setGeneration_nth)
  have c: "\<forall>e\<in>set (q @ childEntries ms (insert (m_id (ms ! i)) v) i g). fst e < length ms0"
    using inv childEntries_in_range [of _ ms] len by (auto simp: storeInv_def)
  have d: "\<forall>e\<in>set (pushGeneration g i gens). \<forall>j\<in>set (snd e).
            j < length ms0 \<and> m_id (setGeneration ms i g ! j) \<in> insert (m_id (ms ! i)) v
            \<and> generation (setGeneration ms i g ! j) = fst e"
  proof (intro ballI)
    fix e j assume e: "e \<in> set (pushGeneration g i gens)" and j: "j \<in> set (snd e)"
    then have "(fst e, snd e) \<in> set (pushGeneration g i gens)" by simp
    from pushGeneration_entry [OF this j]
    show "j < length ms0 \<and> m_id (setGeneration ms i g ! j) \<in> insert (m_id (ms ! i)) v
            \<and> generation (setGeneration ms i g ! j) = fst e"
    proof
      assume "j = i \<and> fst e = g"
      then show ?thesis using i len by (simp add: setGeneration_nth)
    next
      assume "\<exists>l0. (fst e, l0) \<in> set gens \<and> j \<in> set l0"
      then obtain l0 where l0: "(fst e, l0) \<in> set gens" "j \<in> set l0" by blast
      then have old: "j < length ms0 \<and> m_id (ms ! j) \<in> v \<and> generation (ms ! j) = fst e"
        using inv by (force simp: storeInv_def)
      then have "j \<noteq> i" using nv by auto
      then show ?thesis using old by (simp add: setGeneration_nth)
    qed
  qed
  show ?thesis unfolding storeInv_def using a b c d by blast
qed

lemma bfsLoop_storeInv:
  assumes "storeInv ms0 ms q v gens"
  shows "\<exists>v'. storeInv ms0 (fst (bfsLoop ms q v gens)) [] v' (snd (bfsLoop ms q v gens))"
  by (rule bfsLoop_rule [where I = "storeInv ms0" and Q = "\<lambda>F G. \<exists>v'. storeInv ms0 F [] v' G", OF assms])
     (auto intro: storeInv_skip storeInv_visit)

lemma organizeByGenerations_storeInv:
  "\<exists>v'. storeInv ms (fst (organizeByGenerations ms)) [] v' (snd (organizeByGenerations ms))"
  unfolding organizeByGenerations_def Let_def
  by (rule bfsLoop_storeInv) (simp add: storeInv_def sameGraph_refl placedIn_def)

lemma organizeByGenerations_sameGraph:
  assumes "sameGraph ms ms'"
  shows "snd (organizeByGenerations ms') = snd (organizeByGenerations ms)"
    and "sameGraph (fst (organizeByGenerations ms)) (fst (organizeByGenerations ms'))"
proof -
  have "length (parentIds (ms' ! i)) = length (parentIds (ms ! i))" for i
    using sameGraph_fields(2) [OF assms] by simp
  then have r: "filter (\<lambda>i. length (parentIds (ms' ! i)) = 0) [0..<length ms']
      = filter (\<lambda>i. length (parentIds (ms ! i)) = 0) [0..<length ms]"
    using sameGraph_fields(5) [OF assms] by simp
  show "snd (organizeByGenerations ms') = snd (organizeByGenerations ms)"
    and "sameGraph (fst (organizeByGenerations ms)) (fst (organizeByGenerations ms'))"
    unfolding organizeByGenerations_def Let_def r
    using bfsLoop_sameGraph [OF assms] by simp_all
qed

lemma organizeByGenerations_idem:
  "organizeByGenerations (fst (organizeByGenerations ms)) = organizeByGenerations ms"
proof -
  define F G where "F = fst (organizeByGenerations ms)" and "G = snd (organizeByGenerations ms)"
  define F' where "F' = fst (organizeByGenerations F)"
  obtain v1 where i1: "storeInv ms F [] v1 G"
    using organizeByGenerations_storeInv [of ms] unfolding F_def G_def by blast
  then have sg: "sameGraph ms F" by (simp add: storeInv_def)
  have G': "snd (organizeByGenerations F) = G"
    unfolding G_def by (rule organizeByGenerations_sameGraph(1) [OF sg])
  obtain v2 where i2: "storeInv F F' [] v2 G"
    using organizeByGenerations_storeInv [of F] unfolding F'_def G' by blast
  then have sg2: "sameGraph F F'" by (simp add: storeInv_def)
  have "generation (F' ! j) = generation (F ! j)" for j
  proof (cases "j \<in> placedIn G")
    case True
    then obtain e where e: "e \<in> set G" "j \<in> set (snd e)" by (auto simp: placedIn_def)
    have "generation (F ! j) = fst e" using i1 e by (simp add: storeInv_def)
    moreover have "generation (F' ! j) = fst e" using i2 e by (simp add: storeInv_def)
    ultimately show ?thesis by simp
  next
    case False
    then show ?thesis using i2 by (simp add: storeInv_def)
  qed
  then have "F' = F" using sg2 by (intro sameGraph_eqI)
  then show ?thesis using G' unfolding F'_def F_def G_def by (simp add: prod_eq_iff)
qed

lemma calculateLayout_snd: "snd (calculateLayout ms cfg) = fst (organizeByGenerations ms)"
  by (simp add: calculateLayout_def split: prod.splits)

lemma calculateLayout_idem:
  "calculateLayout (snd (calculateLayout ms cfg)) cfg = calculateLayout ms cfg"
  unfolding calculateLayout_snd
  by (simp add: calculateLayout_def organizeByGenerations_idem)

text \<open>
  Claim C9. Both engines are functions of their input, and running either one again on the
  array as the first run left it gives the same result: the same risk list and score
  tables, and the same generations and positions (the \<open>z\<close> coordinate included), with
  the input array unchanged by the second run.
\<close>

theorem C9_idempotent:
  "calculateFamilyRisks toFixed1 (snd (calculateFamilyRisks toFixed1 members diseaseList)) diseaseList
     = calculateFamilyRisks toFixed1 members diseaseList
   \<and> calculateLayout (snd (calculateLayout members config)) config = calculateLayout members config"
proof -
  have "map (\<lambda>m. m\<lparr>riskScores := Map.empty\<rparr>) (snd (calculateFamilyRisks toFixed1 members diseaseList))
      = map (\<lambda>m. m\<lparr>riskScores := Map.empty\<rparr>) members"
    by (simp add: calculateFamilyRisks_char)
  then show ?thesis
    using calculateFamilyRisks_reset calculateLayout_idem by blast
qed

lemma storeInv_placed:
  assumes "storeInv ms0 ms q v gens" and "j \<in> placedIn gens"
  shows "j < length ms0" "m_id (ms0 ! j) \<in> v"
proof -
  obtain e where e: "e \<in> set gens" "j \<in> set (snd e)" using assms(2) by (auto simp: placedIn_def)
  then have "j < length ms0 \<and> m_id (ms ! j) \<in> v" using assms(1) by (simp add: storeInv_def)
  moreover have "m_id (ms ! j) = m_id (ms0 ! j)"
    using assms(1) sameGraph_fields(1) by (simp add: storeInv_def)
  ultimately show "j < length ms0" "m_id (ms0 ! j) \<in> v" by simp_all
qed

lemma symmetricLinksD:
  assumes "symmetricLinks ms" "c < length ms" "p < length ms"
  shows "(m_id (ms ! c) \<in> set (childrenIds (ms ! p))) = (m_id (ms ! p) \<in> set (parentIds (ms ! c)))"
  using assms by (simp add: symmetricLinks_def)

text \<open>Facts about one visiting step.\<close>

lemma visit_facts:
  assumes inv: "storeInv ms0 ms ((i, h) # q) v gens" and nv: "m_id (ms ! i) \<notin> v"
  shows "i < length ms0" "m_id (ms ! i) = m_id (ms0 ! i)" "i \<notin> placedIn gens"
    "generation (setGeneration ms i h ! i) = h"
    "\<And>j. j \<in> placedIn gens \<Longrightarrow> generation (setGeneration ms i h ! j) = generation (ms ! j)"
    "\<And>j. j \<in> placedIn gens \<Longrightarrow> j \<noteq> i"
proof -
  show i: "i < length ms0" using inv by (simp add: storeInv_def)
  have sg: "sameGraph ms0 ms" using inv by (simp add: storeInv_def)
  show id: "m_id (ms ! i) = m_id (ms0 ! i)" using sg by (rule sameGraph_fields)
  show np: "i \<notin> placedIn gens" using storeInv_placed(2) [OF inv] nv id by auto
  have len: "length ms = length ms0" using sg by (rule sameGraph_fields)
  show "generation (setGeneration ms i h ! i) = h" using i len by (simp add: setGeneration_nth)
  show "\<And>j. j \<in> placedIn gens \<Longrightarrow> j \<noteq> i" using np by auto
  then show "\<And>j. j \<in> placedIn gens \<Longrightarrow> generation (setGeneration ms i h ! j) = generation (ms ! j)"
    by (simp add: setGeneration_nth)
qed

lemma visitedInv_visit:
  assumes "visitedInv ms0 v gens" and "m_id (ms ! i) = m_id (ms0 ! i)"
  shows "visitedInv ms0 (insert (m_id (ms ! i)) v) (pushGeneration h i gens)"
  using assms by (auto simp: visitedInv_def placedIn_pushGeneration)

lemma distinct_ids_eq:
  assumes "distinct (map m_id ms0)" "a < length ms0" "b < length ms0" "m_id (ms0 ! a) = m_id (ms0 ! b)"
  shows "a = b"
proof -
  have "map m_id ms0 ! a = map m_id ms0 ! b" using assms by simp
  moreover have "a < length (map m_id ms0)" "b < length (map m_id ms0)" using assms by simp_all
  ultimately show ?thesis using assms(1) nth_eq_iff_index_eq by blast
qed

lemma childEntries_store:
  assumes "storeInv ms0 ms q v gens"
  shows "childEntries ms w i h = childEntries ms0 w i h"
  using assms sameGraph_childEntries by (simp add: storeInv_def)

lemma childEntry_facts:
  assumes "e \<in> set (childEntries ms0 w i h)"
  shows "snd e = h + 1" "fst e < length ms0" "m_id (ms0 ! fst e) \<in> set (childrenIds (ms0 ! i))"
    "m_id (ms0 ! fst e) \<notin> w" "memberIndexOf ms0 (m_id (ms0 ! fst e)) = Some (fst e)"
proof -
  obtain cid where cid: "cid \<in> set (childrenIds (ms0 ! i))" "memberIndexOf ms0 cid = Some (fst e)" "cid \<notin> w"
    and s: "snd e = h + 1"
    using assms by (auto simp: in_childEntries)
  have c: "fst e < length ms0 \<and> m_id (ms0 ! fst e) = cid" using cid(2) by (rule memberIndexOf_SomeD)
  show "snd e = h + 1" by (rule s)
  show "fst e < length ms0" using c by simp
  show "m_id (ms0 ! fst e) \<in> set (childrenIds (ms0 ! i))" using c cid(1) by simp
  show "m_id (ms0 ! fst e) \<notin> w" using c cid(3) by simp
  show "memberIndexOf ms0 (m_id (ms0 ! fst e)) = Some (fst e)" using c cid(2) by simp
qed

lemma rootInv_visit:
  assumes sym: "symmetricLinks ms0"
    and st: "storeInv ms0 ms ((i, h) # q) v gens" and nv: "m_id (ms ! i) \<notin> v"
    and ri: "rootInv ms0 ms ((i, h) # q) gens"
  shows "rootInv ms0 (setGeneration ms i h) (q @ childEntries ms0 w i h) (pushGeneration h i gens)"
proof -
  note vf = visit_facts [OF st nv]
  have a: "\<forall>r<length ms0. parentIds (ms0 ! r) = [] \<longrightarrow>
        (r, 0) \<in> set (q @ childEntries ms0 w i h) \<or> r \<in> placedIn (pushGeneration h i gens)"
    using ri by (auto simp: rootInv_def placedIn_pushGeneration)
  have b: "\<forall>e\<in>set (q @ childEntries ms0 w i h). parentIds (ms0 ! fst e) = [] \<longrightarrow> snd e = 0"
  proof (intro ballI impI)
    fix e assume e: "e \<in> set (q @ childEntries ms0 w i h)" and r: "parentIds (ms0 ! fst e) = []"
    show "snd e = 0"
    proof (cases "e \<in> set q")
      case True
      then show ?thesis using ri r by (simp add: rootInv_def)
    next
      case False
      then have ce: "e \<in> set (childEntries ms0 w i h)" using e by simp
      have "m_id (ms0 ! i) \<in> set (parentIds (ms0 ! fst e))"
        using symmetricLinksD [OF sym childEntry_facts(2) [OF ce] vf(1)] childEntry_facts(3) [OF ce]
        by simp
      then show ?thesis using r by simp
    qed
  qed
  have c: "\<forall>j\<in>placedIn (pushGeneration h i gens). parentIds (ms0 ! j) = [] \<longrightarrow>
        generation (setGeneration ms i h ! j) = 0"
  proof (intro ballI impI)
    fix j assume j: "j \<in> placedIn (pushGeneration h i gens)" and r: "parentIds (ms0 ! j) = []"
    show "generation (setGeneration ms i h ! j) = 0"
    proof (cases "j = i")
      case True
      have "h = 0" using ri r True by (simp add: rootInv_def)
      then show ?thesis using vf(4) True by simp
    next
      case False
      then have "j \<in> placedIn gens" using j by (simp add: placedIn_pushGeneration)
      then show ?thesis using vf(5) ri r by (simp add: rootInv_def)
    qed
  qed
  show ?thesis unfolding rootInv_def using a b c by blast
qed

lemma rootInv_skip:
  assumes dist: "distinct (map m_id ms0)"
    and st: "storeInv ms0 ms ((i, h) # q) v gens" and vis: "m_id (ms ! i) \<in> v"
    and vi: "visitedInv ms0 v gens"
    and ri: "rootInv ms0 ms ((i, h) # q) gens"
  shows "rootInv ms0 ms q gens"
proof -
  have i: "i < length ms0" using st by (simp add: storeInv_def)
  have "m_id (ms ! i) = m_id (ms0 ! i)"
    using st sameGraph_fields(1) by (simp add: storeInv_def)
  then obtain j where j: "j \<in> placedIn gens" "m_id (ms0 ! j) = m_id (ms0 ! i)"
    using vi vis by (auto simp: visitedInv_def)
  have "j = i" using distinct_ids_eq [OF dist storeInv_placed(1) [OF st j(1)] i j(2)] .
  then have ip: "i \<in> placedIn gens" using j(1) by simp
  have "\<forall>r<length ms0. parentIds (ms0 ! r) = [] \<longrightarrow> (r, 0) \<in> set q \<or> r \<in> placedIn gens"
    using ri ip by (auto simp: rootInv_def)
  then show ?thesis using ri by (simp add: rootInv_def)
qed

lemma parentInv_skip: "parentInv ms0 ms (e # q) gens \<Longrightarrow> parentInv ms0 ms q gens"
  by (simp add: parentInv_def)

lemma parentInv_visit:
  assumes st: "storeInv ms0 ms ((i, h) # q) v gens" and nv: "m_id (ms ! i) \<notin> v"
    and pa: "parentInv ms0 ms ((i, h) # q) gens"
  shows "parentInv ms0 (setGeneration ms i h) (q @ childEntries ms0 w i h) (pushGeneration h i gens)"
proof -
  note vf = visit_facts [OF st nv]
  have a: "\<forall>e\<in>set (q @ childEntries ms0 w i h). parentIds (ms0 ! fst e) \<noteq> [] \<longrightarrow>
         (\<exists>j\<in>placedIn (pushGeneration h i gens). m_id (ms0 ! fst e) \<in> set (childrenIds (ms0 ! j))
            \<and> snd e = generation (setGeneration ms i h ! j) + 1)"
  proof (intro ballI impI)
    fix e assume e: "e \<in> set (q @ childEntries ms0 w i h)" and r: "parentIds (ms0 ! fst e) \<noteq> []"
    show "\<exists>j\<in>placedIn (pushGeneration h i gens). m_id (ms0 ! fst e) \<in> set (childrenIds (ms0 ! j))
            \<and> snd e = generation (setGeneration ms i h ! j) + 1"
    proof (cases "e \<in> set q")
      case True
      then obtain j where j: "j \<in> placedIn gens" "m_id (ms0 ! fst e) \<in> set (childrenIds (ms0 ! j))"
          "snd e = generation (ms ! j) + 1"
        using pa r by (auto simp: parentInv_def)
      then show ?thesis using vf(5) [OF j(1)] by (auto simp: placedIn_pushGeneration)
    next
      case False
      then have ce: "e \<in> set (childEntries ms0 w i h)" using e by simp
      show ?thesis
        using childEntry_facts(1,3) [OF ce] vf(4) by (auto simp: placedIn_pushGeneration)
    qed
  qed
  have b: "\<forall>k\<in>placedIn (pushGeneration h i gens). parentIds (ms0 ! k) \<noteq> [] \<longrightarrow>
         (\<exists>j\<in>placedIn (pushGeneration h i gens). m_id (ms0 ! k) \<in> set (childrenIds (ms0 ! j))
            \<and> generation (setGeneration ms i h ! k) = generation (setGeneration ms i h ! j) + 1)"
  proof (intro ballI impI)
    fix k assume k: "k \<in> placedIn (pushGeneration h i gens)" and r: "parentIds (ms0 ! k) \<noteq> []"
    show "\<exists>j\<in>placedIn (pushGeneration h i gens). m_id (ms0 ! k) \<in> set (childrenIds (ms0 ! j))
            \<and> generation (setGeneration ms i h ! k) = generation (setGeneration ms i h ! j) + 1"
    proof (cases "k = i")
      case True
      obtain j where j: "j \<in> placedIn gens" "m_id (ms0 ! i) \<in> set (childrenIds (ms0 ! j))"
          "h = generation (ms ! j) + 1"
        using pa r True by (auto simp: parentInv_def)
      then show ?thesis using vf(4) vf(5) [OF j(1)] True by (auto simp: placedIn_pushGeneration)
    next
      case False
      then have kp: "k \<in> placedIn gens" using k by (simp add: placedIn_pushGeneration)
      then obtain j where j: "j \<in> placedIn gens" "m_id (ms0 ! k) \<in> set (childrenIds (ms0 ! j))"
          "generation (ms ! k) = generation (ms ! j) + 1"
        using pa r by (auto simp: parentInv_def)
      then show ?thesis using vf(5) [OF j(1)] vf(5) [OF kp] by (auto simp: placedIn_pushGeneration)
    qed
  qed
  show ?thesis unfolding parentInv_def using a b by blast
qed

lemma levelInv_skip: "levelInv ms (e # q) gens \<Longrightarrow> levelInv ms q gens"
  by (simp add: levelInv_def)

lemma levelInv_head:
  assumes "levelInv ms ((i, h) # q) gens" and "e \<in> set ((i, h) # q)"
  shows "h \<le> snd e" "snd e \<le> h + 1"
  using assms by (auto simp: levelInv_def)

lemma sorted_const: "\<forall>x\<in>set xs. x = (c :: int) \<Longrightarrow> sorted xs"
  by (induction xs) auto

lemma levelInv_visit:
  assumes st: "storeInv ms0 ms ((i, h) # q) v gens" and nv: "m_id (ms ! i) \<notin> v"
    and lv: "levelInv ms ((i, h) # q) gens"
  shows "levelInv (setGeneration ms i h) (q @ childEntries ms0 w i h) (pushGeneration h i gens)"
proof -
  note vf = visit_facts [OF st nv]
  let ?ce = "childEntries ms0 w i h"
  have ce: "snd e = h + 1" if "e \<in> set ?ce" for e using childEntry_facts(1) [OF that] .
  have qb: "h \<le> snd e \<and> snd e \<le> h + 1" if "e \<in> set q" for e
    using levelInv_head [OF lv, of e] that by simp
  have bnd: "h \<le> snd e \<and> snd e \<le> h + 1" if "e \<in> set (q @ ?ce)" for e
  proof (cases "e \<in> set q")
    case True
    then show ?thesis by (rule qb)
  next
    case False
    then have "e \<in> set ?ce" using that by simp
    then have "snd e = h + 1" by (rule ce)
    then show ?thesis by simp
  qed
  have "sorted (map snd q)" using lv by (simp add: levelInv_def)
  moreover have "sorted (map snd ?ce)" by (rule sorted_const [of _ "h + 1"]) (auto simp: ce)
  moreover have "\<forall>x\<in>set (map snd q). \<forall>y\<in>set (map snd ?ce). x \<le> y"
  proof (intro ballI)
    fix x y assume "x \<in> set (map snd q)" and "y \<in> set (map snd ?ce)"
    then obtain e e' where "e \<in> set q" "x = snd e" "e' \<in> set ?ce" "y = snd e'" by auto
    then show "x \<le> y" using qb [of e] ce [of e'] by simp
  qed
  ultimately have a: "sorted (map snd (q @ ?ce))"
    by (simp add: sorted_append)
  have b: "\<forall>e\<in>set (q @ ?ce). \<forall>j\<in>placedIn (pushGeneration h i gens).
      generation (setGeneration ms i h ! j) \<le> snd e"
  proof (intro ballI)
    fix e j assume e: "e \<in> set (q @ ?ce)" and j: "j \<in> placedIn (pushGeneration h i gens)"
    have eh: "h \<le> snd e" using bnd [OF e] by simp
    show "generation (setGeneration ms i h ! j) \<le> snd e"
    proof (cases "j = i")
      case True
      then show ?thesis using vf(4) eh by simp
    next
      case False
      then have jp: "j \<in> placedIn gens" using j by (simp add: placedIn_pushGeneration)
      then have "generation (ms ! j) \<le> h" using lv by (auto simp: levelInv_def)
      then show ?thesis using vf(5) [OF jp] eh by simp
    qed
  qed
  have c: "\<forall>e\<in>set (q @ ?ce). \<forall>e'\<in>set (q @ ?ce). snd e' \<le> snd e + 1"
  proof (intro ballI)
    fix e e' assume e: "e \<in> set (q @ ?ce)" and e': "e' \<in> set (q @ ?ce)"
    show "snd e' \<le> snd e + 1" using bnd [OF e] bnd [OF e'] by simp
  qed
  show ?thesis unfolding levelInv_def using a b c by blast
qed

lemma childInv_skip:
  assumes st: "storeInv ms0 ms ((i, h) # q) v gens" and vis: "m_id (ms ! i) \<in> v"
    and ch: "childInv ms0 ms ((i, h) # q) v gens"
  shows "childInv ms0 ms q v gens"
  unfolding childInv_def
proof (intro ballI allI impI)
  fix j cid c
  assume j: "j \<in> placedIn gens" and cid: "cid \<in> set (childrenIds (ms0 ! j))"
    and c: "memberIndexOf ms0 cid = Some c"
  have id: "m_id (ms ! i) = m_id (ms0 ! i)"
    using st sameGraph_fields(1) by (simp add: storeInv_def)
  from ch j cid c
  have "(c \<in> placedIn gens \<and> generation (ms ! c) \<le> generation (ms ! j) + 1)
        \<or> (cid \<notin> v \<and> (\<exists>g. (c, g) \<in> set ((i, h) # q) \<and> g \<le> generation (ms ! j) + 1))"
    unfolding childInv_def by blast
  then show "(c \<in> placedIn gens \<and> generation (ms ! c) \<le> generation (ms ! j) + 1)
        \<or> (cid \<notin> v \<and> (\<exists>g. (c, g) \<in> set q \<and> g \<le> generation (ms ! j) + 1))"
  proof
    assume "c \<in> placedIn gens \<and> generation (ms ! c) \<le> generation (ms ! j) + 1"
    then show ?thesis by blast
  next
    assume r: "cid \<notin> v \<and> (\<exists>g. (c, g) \<in> set ((i, h) # q) \<and> g \<le> generation (ms ! j) + 1)"
    then obtain g where g: "(c, g) \<in> set ((i, h) # q)" "g \<le> generation (ms ! j) + 1" by blast
    have "c \<noteq> i"
    proof
      assume "c = i"
      then have "m_id (ms0 ! i) = cid" using memberIndexOf_SomeD [OF c] by simp
      then show False using r vis id by simp
    qed
    then have "(c, g) \<in> set q" using g(1) by auto
    then show ?thesis using r g(2) by blast
  qed
qed

lemma childInv_visit:
  assumes dist: "distinct (map m_id ms0)"
    and st: "storeInv ms0 ms ((i, h) # q) v gens" and nv: "m_id (ms ! i) \<notin> v"
    and vi: "visitedInv ms0 v gens"
    and lv: "levelInv ms ((i, h) # q) gens"
    and ch: "childInv ms0 ms ((i, h) # q) v gens"
  shows "childInv ms0 (setGeneration ms i h)
           (q @ childEntries ms0 (insert (m_id (ms ! i)) v) i h)
           (insert (m_id (ms ! i)) v) (pushGeneration h i gens)"
  unfolding childInv_def
proof (intro ballI allI impI)
  note vf = visit_facts [OF st nv]
  let ?v' = "insert (m_id (ms ! i)) v"
  let ?ce = "childEntries ms0 ?v' i h"
  let ?gen' = "\<lambda>j. generation (setGeneration ms i h ! j)"
  fix j cid c
  assume j: "j \<in> placedIn (pushGeneration h i gens)" and cid: "cid \<in> set (childrenIds (ms0 ! j))"
    and c: "memberIndexOf ms0 cid = Some c"
  have cf: "c < length ms0" "m_id (ms0 ! c) = cid" using memberIndexOf_SomeD [OF c] by simp_all
  have placed_le: "generation (ms ! k) \<le> h" if "k \<in> placedIn gens" for k
    using lv that by (auto simp: levelInv_def)
  have self: "c = i" if "cid = m_id (ms ! i)"
    using distinct_ids_eq [OF dist cf(1) vf(1)] cf(2) that vf(2) by simp
  show "(c \<in> placedIn (pushGeneration h i gens) \<and> ?gen' c \<le> ?gen' j + 1)
        \<or> (cid \<notin> ?v' \<and> (\<exists>g. (c, g) \<in> set (q @ ?ce) \<and> g \<le> ?gen' j + 1))"
  proof (cases "j = i")
    case True
    show ?thesis
    proof (cases "cid \<in> ?v'")
      case False
      then have "(c, h + 1) \<in> set ?ce" using cid c True by (auto simp: in_childEntries)
      then show ?thesis using False vf(4) True by auto
    next
      case inv': True
      show ?thesis
      proof (cases "cid = m_id (ms ! i)")
        case True
        then show ?thesis using self vf(4) \<open>j = i\<close> by (simp add: placedIn_pushGeneration)
      next
        case False
        then have "cid \<in> v" using inv' by simp
        then obtain k where k: "k \<in> placedIn gens" "m_id (ms0 ! k) = cid"
          using vi by (auto simp: visitedInv_def)
        have "k = c"
          using distinct_ids_eq [OF dist storeInv_placed(1) [OF st k(1)] cf(1)] k(2) cf(2) by simp
        then have cp: "c \<in> placedIn gens" using k(1) by simp
        then show ?thesis
          using placed_le [OF cp] vf(5) [OF cp] vf(4) \<open>j = i\<close> by (simp add: placedIn_pushGeneration)
      qed
    qed
  next
    case False
    then have jp: "j \<in> placedIn gens" using j by (simp add: placedIn_pushGeneration)
    note gj = vf(5) [OF jp]
    from ch jp cid c
    have "(c \<in> placedIn gens \<and> generation (ms ! c) \<le> generation (ms ! j) + 1)
        \<or> (cid \<notin> v \<and> (\<exists>g. (c, g) \<in> set ((i, h) # q) \<and> g \<le> generation (ms ! j) + 1))"
      unfolding childInv_def by blast
    then show ?thesis
    proof
      assume a: "c \<in> placedIn gens \<and> generation (ms ! c) \<le> generation (ms ! j) + 1"
      then show ?thesis using vf(5) [of c] gj by (simp add: placedIn_pushGeneration)
    next
      assume r: "cid \<notin> v \<and> (\<exists>g. (c, g) \<in> set ((i, h) # q) \<and> g \<le> generation (ms ! j) + 1)"
      then obtain g where g: "(c, g) \<in> set ((i, h) # q)" "g \<le> generation (ms ! j) + 1" by blast
      have hg: "h \<le> g" using levelInv_head(1) [OF lv g(1)] by simp
      show ?thesis
      proof (cases "cid = m_id (ms ! i)")
        case True
        then have "c = i" by (rule self)
        then show ?thesis using vf(4) gj hg g(2) by (simp add: placedIn_pushGeneration)
      next
        case False
        then have "c \<noteq> i" using cf(2) vf(2) by auto
        then have "(c, g) \<in> set q" using g(1) by auto
        then show ?thesis using False r g(2) gj by auto
      qed
    qed
  qed
qed

lemma layoutInv_skip:
  assumes "distinct (map m_id ms0)"
    and "layoutInv ms0 ms ((i, h) # q) v gens" and "m_id (ms ! i) \<in> v"
  shows "layoutInv ms0 ms q v gens"
  using assms
  unfolding layoutInv_def
  by (auto intro: storeInv_skip rootInv_skip parentInv_skip levelInv_skip childInv_skip)

lemma layoutInv_visit:
  assumes dist: "distinct (map m_id ms0)" and sym: "symmetricLinks ms0"
    and inv: "layoutInv ms0 ms ((i, h) # q) v gens" and nv: "m_id (ms ! i) \<notin> v"
  shows "layoutInv ms0 (setGeneration ms i h) (q @ childEntries ms (insert (m_id (ms ! i)) v) i h)
           (insert (m_id (ms ! i)) v) (pushGeneration h i gens)"
proof -
  have st: "storeInv ms0 ms ((i, h) # q) v gens" using inv by (simp add: layoutInv_def)
  have ce: "childEntries ms (insert (m_id (ms ! i)) v) i h
          = childEntries ms0 (insert (m_id (ms ! i)) v) i h"
    by (rule childEntries_store [OF st])
  have 1: "storeInv ms0 (setGeneration ms i h) (q @ childEntries ms (insert (m_id (ms ! i)) v) i h)
           (insert (m_id (ms ! i)) v) (pushGeneration h i gens)"
    by (rule storeInv_visit [OF st nv])
  have 2: "visitedInv ms0 (insert (m_id (ms ! i)) v) (pushGeneration h i gens)"
    using inv visit_facts(2) [OF st nv] by (simp add: layoutInv_def visitedInv_visit)
  have 3: "rootInv ms0 (setGeneration ms i h) (q @ childEntries ms0 (insert (m_id (ms ! i)) v) i h)
           (pushGeneration h i gens)"
    using inv by (intro rootInv_visit [OF sym st nv]) (simp add: layoutInv_def)
  have 4: "parentInv ms0 (setGeneration ms i h) (q @ childEntries ms0 (insert (m_id (ms ! i)) v) i h)
           (pushGeneration h i gens)"
    using inv by (intro parentInv_visit [OF st nv]) (simp add: layoutInv_def)
  have 5: "levelInv (setGeneration ms i h) (q @ childEntries ms0 (insert (m_id (ms ! i)) v) i h)
           (pushGeneration h i gens)"
    using inv by (intro levelInv_visit [OF st nv]) (simp add: layoutInv_def)
  have 6: "childInv ms0 (setGeneration ms i h) (q @ childEntries ms0 (insert (m_id (ms ! i)) v) i h)
           (insert (m_id (ms ! i)) v) (pushGeneration h i gens)"
    using inv by (intro childInv_visit [OF dist st nv]) (simp_all add: layoutInv_def)
  show ?thesis unfolding layoutInv_def ce using 1 [unfolded ce] 2 3 4 5 6 by blast
qed

lemma layoutInv_init:
  "layoutInv ms0 ms0
     (map (\<lambda>member. (member, 0)) (filter (\<lambda>i. length (parentIds (ms0 ! i)) = 0) [0..<length ms0]))
     {} []"
proof -
  let ?q = "map (\<lambda>member. (member, 0 :: int)) (filter (\<lambda>i. length (parentIds (ms0 ! i)) = 0) [0..<length ms0])"
  have q: "e \<in> set ?q \<Longrightarrow> snd e = 0 \<and> fst e < length ms0 \<and> parentIds (ms0 ! fst e) = []" for e
    by auto
  have 1: "storeInv ms0 ms0 ?q {} []"
    by (simp add: storeInv_def sameGraph_refl placedIn_def)
  have 2: "visitedInv ms0 {} []" by (simp add: visitedInv_def)
  have 3: "rootInv ms0 ms0 ?q []"
    unfolding rootInv_def using q by (auto simp: placedIn_def)
  have 4: "parentInv ms0 ms0 ?q []"
    unfolding parentInv_def using q by (auto simp: placedIn_def)
  have "sorted (map snd ?q)" by (rule sorted_const [of _ 0]) auto
  then have 5: "levelInv ms0 ?q []"
    unfolding levelInv_def using q by (auto simp: placedIn_def)
  have 6: "childInv ms0 ms0 ?q {} []" by (simp add: childInv_def placedIn_def)
  show ?thesis unfolding layoutInv_def using 1 2 3 4 5 6 by blast
qed

lemma organizeByGenerations_layoutInv:
  assumes dist: "distinct (map m_id ms0)" and sym: "symmetricLinks ms0"
  shows "\<exists>v. layoutInv ms0 (fst (organizeByGenerations ms0)) [] v (snd (organizeByGenerations ms0))"
  unfolding organizeByGenerations_def Let_def
  by (rule bfsLoop_rule [where I = "layoutInv ms0" and Q = "\<lambda>F G. \<exists>v. layoutInv ms0 F [] v G",
        OF layoutInv_init])
     (auto intro: layoutInv_skip [OF dist] layoutInv_visit [OF dist sym])

lemma final_roots:
  assumes "layoutInv ms0 F [] v G" and "r < length ms0" and "parentIds (ms0 ! r) = []"
  shows "r \<in> placedIn G" "generation (F ! r) = 0"
proof -
  show p: "r \<in> placedIn G" using assms by (auto simp: layoutInv_def rootInv_def)
  then show "generation (F ! r) = 0" using assms by (auto simp: layoutInv_def rootInv_def)
qed

lemma final_children:
  assumes inv: "layoutInv ms0 F [] v G" and dist: "distinct (map m_id ms0)"
    and j: "j \<in> placedIn G" and c: "c < length ms0"
    and l: "m_id (ms0 ! c) \<in> set (childrenIds (ms0 ! j))"
  shows "c \<in> placedIn G" "generation (F ! c) \<le> generation (F ! j) + 1"
proof -
  have "memberIndexOf ms0 (m_id (ms0 ! c)) = Some c" using dist c by (rule memberIndexOf_distinct)
  then have "c \<in> placedIn G \<and> generation (F ! c) \<le> generation (F ! j) + 1"
    using inv j l unfolding layoutInv_def childInv_def by fastforce
  then show "c \<in> placedIn G" "generation (F ! c) \<le> generation (F ! j) + 1" by simp_all
qed

lemma final_parent:
  assumes inv: "layoutInv ms0 F [] v G" and i: "i \<in> placedIn G" and nr: "parentIds (ms0 ! i) \<noteq> []"
  shows "\<exists>j\<in>placedIn G. j < length ms0 \<and> m_id (ms0 ! i) \<in> set (childrenIds (ms0 ! j))
           \<and> generation (F ! i) = generation (F ! j) + 1"
proof -
  have st: "storeInv ms0 F [] v G" using inv by (simp add: layoutInv_def)
  obtain j where j: "j \<in> placedIn G" "m_id (ms0 ! i) \<in> set (childrenIds (ms0 ! j))"
      "generation (F ! i) = generation (F ! j) + 1"
    using inv i nr unfolding layoutInv_def parentInv_def by blast
  then show ?thesis using storeInv_placed(1) [OF st j(1)] by blast
qed

lemma all_placed:
  assumes wf: "wellFormedPedigree rank ms0" and inv: "layoutInv ms0 F [] v G"
    and i: "i < length ms0"
  shows "i \<in> placedIn G"
  using i
proof (induction "rank (ms0 ! i)" arbitrary: i rule: less_induct)
  case less
  have dist: "distinct (map m_id ms0)" and sym: "symmetricLinks ms0"
    using wf by (simp_all add: wellFormedPedigree_def)
  show ?case
  proof (cases "parentIds (ms0 ! i) = []")
    case True
    then show ?thesis using final_roots(1) [OF inv less.prems] by simp
  next
    case False
    have "ms0 ! i \<in> set ms0" using less.prems by simp
    then obtain p where p: "p \<in> set ms0" "m_id p \<in> set (parentIds (ms0 ! i))"
      using wf False unfolding wellFormedPedigree_def by blast
    then obtain j where j: "j < length ms0" "ms0 ! j = p" by (auto simp: in_set_conv_nth)
    have "rank (ms0 ! j) < rank (ms0 ! i)"
      using wf p j less.prems unfolding wellFormedPedigree_def by auto
    then have jp: "j \<in> placedIn G" using less.hyps j(1) by blast
    have "m_id (ms0 ! i) \<in> set (childrenIds (ms0 ! j))"
      using symmetricLinksD [OF sym less.prems j(1)] p(2) j(2) by simp
    then show ?thesis using final_children(1) [OF inv dist jp less.prems] by simp
  qed
qed

lemma updateFirst_map:
  assumes "\<And>x. g (f x) = g x"
  shows "map g (updateFirst P f xs) = map g xs"
  by (induction xs) (simp_all add: assms)

lemma positionGroup_map:
  assumes "\<And>m p. g (m\<lparr>position := p\<rparr>) = g m"
  shows "map g (snd (positionGroup cfg store y siblings (cx, all))) = map g all"
proof -
  have "map g (fold (\<lambda>(index, member) acc.
                       updateFirst (\<lambda>m. m_id m = m_id (store ! member))
                         (\<lambda>m. m\<lparr>position := pos index member\<rparr>) acc) es all) = map g all"
    for es :: "(nat \<times> nat) list" and pos
    by (induction es arbitrary: all) (auto simp: updateFirst_map assms)
  then show ?thesis by (simp add: positionGroup_def Let_def)
qed

lemma positionGroups_map:
  assumes "\<And>m p. g (m\<lparr>position := p\<rparr>) = g m"
  shows "map g (snd (fold (positionGroup cfg store y) groups (cx, all))) = map g all"
proof (induction groups arbitrary: cx all)
  case Nil
  show ?case by simp
next
  case (Cons grp groups)
  obtain cx' all' where s: "positionGroup cfg store y grp (cx, all) = (cx', all')"
    by (cases "positionGroup cfg store y grp (cx, all)")
  have "map g all' = map g all" using positionGroup_map [OF assms, of cfg store y grp cx all] s by simp
  then show ?case using Cons [of cx' all'] s by simp
qed

lemma positionGeneration_map:
  assumes "\<And>m p. g (m\<lparr>position := p\<rparr>) = g m"
  shows "map g (positionGeneration l gen cfg store all) = map g all"
  by (simp add: positionGeneration_def Let_def positionGroups_map [OF assms])

lemma calculateLayout_map:
  assumes "\<And>m p. g (m\<lparr>position := p\<rparr>) = g m"
  shows "map g (fst (calculateLayout ms cfg)) = map g (fst (organizeByGenerations ms))"
proof -
  have "map g (fold (\<lambda>(gen, generationMembers) allMembers.
                     positionGeneration generationMembers gen cfg store allMembers) gens all) = map g all"
    for gens store all
    by (induction gens arbitrary: all) (auto simp: positionGeneration_map [OF assms])
  then show ?thesis by (simp add: calculateLayout_def split: prod.splits)
qed

lemma calculateLayout_generation:
  assumes "i < length ms"
  shows "generation (fst (calculateLayout ms cfg) ! i) = generation (fst (organizeByGenerations ms) ! i)"
proof -
  have m: "map generation (fst (calculateLayout ms cfg)) = map generation (fst (organizeByGenerations ms))"
    by (rule calculateLayout_map) simp
  obtain v where "storeInv ms (fst (organizeByGenerations ms)) [] v (snd (organizeByGenerations ms))"
    using organizeByGenerations_storeInv by blast
  then have l: "length (fst (organizeByGenerations ms)) = length ms"
    by (simp add: storeInv_def sameGraph_def)
  then have l2: "length (fst (calculateLayout ms cfg)) = length ms"
    using m by (metis length_map)
  have "map generation (fst (calculateLayout ms cfg)) ! i = map generation (fst (organizeByGenerations ms)) ! i"
    using m by simp
  then show ?thesis using assms l l2 by simp
qed


lemma wellFormed_exPedigree: "wellFormedPedigree exRank exPedigree"
  by code_simp



lemma haveSameParents_iff:
  "haveSameParents a b =
     (length (parentIds a) = length (parentIds b) \<and> set (parentIds a) = set (parentIds b))"
proof -
  have "(card (set (parentIds a)) = card (set (parentIds b)) \<and> set (parentIds a) \<subseteq> set (parentIds b))
      = (set (parentIds a) = set (parentIds b))"
    using card_subset_eq [of "set (parentIds b)" "set (parentIds a)"] by auto
  then show ?thesis
    by (auto simp: haveSameParents_def Let_def list_all_iff length_remdups_card_conv subset_iff)
qed

lemma haveSameParents_refl: "haveSameParents a a"
  by (simp add: haveSameParents_iff)

lemma haveSameParents_sym: "haveSameParents a b \<Longrightarrow> haveSameParents b a"
  by (simp add: haveSameParents_iff)

lemma haveSameParents_trans: "haveSameParents a b \<Longrightarrow> haveSameParents b c \<Longrightarrow> haveSameParents a c"
  by (simp add: haveSameParents_iff)

lemma haveSameParents_nonroot:
  "haveSameParents a b \<Longrightarrow> parentIds a \<noteq> [] \<Longrightarrow> parentIds b \<noteq> []"
  by (auto simp: haveSameParents_iff)

lemma groupSiblings_fold: "groupSiblings store l = snd (fold (groupStep store l) l ({}, []))"
proof -
  have "(\<lambda>member (processed, groups).
                  if m_id (store ! member) \<in> processed then (processed, groups)
                  else
                    (let siblings = findSiblings store member l
                     in (processed \<union> set (map (\<lambda>sibling. m_id (store ! sibling)) siblings),
                         groups @ [siblings]))) = groupStep store l"
    by (intro ext) (simp add: groupStep_def)
  then show ?thesis by (simp add: groupSiblings_def)
qed

lemma findSiblings_cases:
  "(parentIds (store ! m) = [] \<and> findSiblings store m l = [m])
   \<or> (parentIds (store ! m) \<noteq> []
       \<and> findSiblings store m l = filter (\<lambda>other. haveSameParents (store ! m) (store ! other)) l)"
  by (simp add: findSiblings_def)

lemma groupStep_inv:
  assumes inv: "groupInv store l state" and m: "m \<in> set l" and dl: "distinct l"
  shows "groupInv store l (groupStep store l m state)"
proof (cases "m_id (store ! m) \<in> fst state")
  case True
  then have "groupStep store l m state = state" by (cases state) (simp add: groupStep_def)
  then show ?thesis using inv by simp
next
  case False
  obtain processed groups where s: "state = (processed, groups)" by (cases state)
  have I: "processed = (\<lambda>j. m_id (store ! j)) ` set (concat groups)
      \<and> distinct (concat groups)
      \<and> set (concat groups) \<subseteq> set l
      \<and> (\<forall>grp\<in>set groups. \<forall>a\<in>set grp. \<forall>b\<in>set l.
            parentIds (store ! a) \<noteq> [] \<and> haveSameParents (store ! a) (store ! b) \<longrightarrow> b \<in> set grp)
      \<and> (\<forall>grp\<in>set groups. \<forall>a\<in>set grp. \<forall>b\<in>set grp. haveSameParents (store ! a) (store ! b))"
    using inv unfolding groupInv_def s fst_conv snd_conv .
  note I1 = conjunct1 [OF I]
  note I2 = conjunct1 [OF conjunct2 [OF I]]
  note I3 = conjunct1 [OF conjunct2 [OF conjunct2 [OF I]]]
  note I4 = conjunct1 [OF conjunct2 [OF conjunct2 [OF conjunct2 [OF I]]]]
  note I5 = conjunct2 [OF conjunct2 [OF conjunct2 [OF conjunct2 [OF I]]]]
  let ?sib = "findSiblings store m l"
  have step: "groupStep store l m state
      = (processed \<union> (\<lambda>j. m_id (store ! j)) ` set ?sib, groups @ [?sib])"
    using False by (simp add: groupStep_def s Let_def)
  have mnot: "m \<notin> set (concat groups)" using False I1 by (auto simp: s)
  have sub: "set ?sib \<subseteq> set l" using findSiblings_cases [of store m l] m by auto
  have ds: "distinct ?sib" using findSiblings_cases [of store m l] dl by auto
  have closed: "b \<in> set ?sib"
    if "a \<in> set ?sib" "b \<in> set l" "parentIds (store ! a) \<noteq> []" "haveSameParents (store ! a) (store ! b)"
    for a b
    using findSiblings_cases [of store m l]
  proof
    assume "parentIds (store ! m) = [] \<and> ?sib = [m]"
    then show ?thesis using that by auto
  next
    assume r: "parentIds (store ! m) \<noteq> []
       \<and> ?sib = filter (\<lambda>other. haveSameParents (store ! m) (store ! other)) l"
    then have "haveSameParents (store ! m) (store ! a)" using that(1) by simp
    then have "haveSameParents (store ! m) (store ! b)" using that(4) by (rule haveSameParents_trans)
    then show ?thesis using r that(2) by simp
  qed
  have sibs: "haveSameParents (store ! a) (store ! b)" if "a \<in> set ?sib" "b \<in> set ?sib" for a b
    using findSiblings_cases [of store m l]
  proof
    assume "parentIds (store ! m) = [] \<and> ?sib = [m]"
    then show ?thesis using that by (simp add: haveSameParents_refl)
  next
    assume r: "parentIds (store ! m) \<noteq> []
       \<and> ?sib = filter (\<lambda>other. haveSameParents (store ! m) (store ! other)) l"
    then have ma: "haveSameParents (store ! m) (store ! a)"
      and mb: "haveSameParents (store ! m) (store ! b)"
      using that by simp_all
    show ?thesis by (rule haveSameParents_trans [OF haveSameParents_sym [OF ma] mb])
  qed
  have disj: "set ?sib \<inter> set (concat groups) = {}"
  proof (rule ccontr)
    assume "set ?sib \<inter> set (concat groups) \<noteq> {}"
    then obtain b grp where b: "b \<in> set ?sib" "grp \<in> set groups" "b \<in> set grp" by auto
    from findSiblings_cases [of store m l] show False
    proof
      assume "parentIds (store ! m) = [] \<and> ?sib = [m]"
      then have "b = m" using b(1) by simp
      then show False using mnot b(2,3) by auto
    next
      assume r: "parentIds (store ! m) \<noteq> []
         \<and> ?sib = filter (\<lambda>other. haveSameParents (store ! m) (store ! other)) l"
      then have mb: "haveSameParents (store ! m) (store ! b)" using b(1) by simp
      then have "parentIds (store ! b) \<noteq> []" using r by (auto dest: haveSameParents_nonroot)
      moreover have "haveSameParents (store ! b) (store ! m)" using mb by (rule haveSameParents_sym)
      ultimately have "m \<in> set grp" using I4 b(2,3) m by blast
      then show False using mnot b(2) by auto
    qed
  qed
  have 1: "processed \<union> (\<lambda>j. m_id (store ! j)) ` set ?sib
         = (\<lambda>j. m_id (store ! j)) ` set (concat (groups @ [?sib]))"
    using I1 by auto
  have 2: "distinct (concat (groups @ [?sib]))"
    using I2 ds disj by auto
  have 3: "set (concat (groups @ [?sib])) \<subseteq> set l"
    using I3 sub by auto
  have 4: "\<forall>grp\<in>set (groups @ [?sib]). \<forall>a\<in>set grp. \<forall>b\<in>set l.
            parentIds (store ! a) \<noteq> [] \<and> haveSameParents (store ! a) (store ! b) \<longrightarrow> b \<in> set grp"
  proof (intro ballI impI)
    fix grp a b
    assume g: "grp \<in> set (groups @ [?sib])" and a: "a \<in> set grp" and b: "b \<in> set l"
      and h: "parentIds (store ! a) \<noteq> [] \<and> haveSameParents (store ! a) (store ! b)"
    show "b \<in> set grp"
    proof (cases "grp \<in> set groups")
      case True
      then show ?thesis using I4 a b h by blast
    next
      case False
      then have "grp = ?sib" using g by simp
      then show ?thesis using closed [of a b] a b h by simp
    qed
  qed
  have 5: "\<forall>grp\<in>set (groups @ [?sib]). \<forall>a\<in>set grp. \<forall>b\<in>set grp. haveSameParents (store ! a) (store ! b)"
  proof (intro ballI)
    fix grp a b
    assume g: "grp \<in> set (groups @ [?sib])" and a: "a \<in> set grp" and b: "b \<in> set grp"
    show "haveSameParents (store ! a) (store ! b)"
    proof (cases "grp \<in> set groups")
      case True
      then show ?thesis using I5 a b by blast
    next
      case False
      then have "grp = ?sib" using g by simp
      then show ?thesis using sibs [of a b] a b by simp
    qed
  qed
  show ?thesis unfolding step groupInv_def fst_conv snd_conv using 1 2 3 4 5 by blast
qed

lemma groupStep_covers:
  assumes inv: "groupInv store l state" and m: "m \<in> set l"
    and ids: "\<forall>a\<in>set l. \<forall>b\<in>set l. m_id (store ! a) = m_id (store ! b) \<longrightarrow> a = b"
  shows "insert m (set (concat (snd state))) \<subseteq> set (concat (snd (groupStep store l m state)))"
proof (cases "m_id (store ! m) \<in> fst state")
  case True
  then have same: "groupStep store l m state = state" by (cases state) (simp add: groupStep_def)
  have fs: "fst state = (\<lambda>j. m_id (store ! j)) ` set (concat (snd state))"
    and sub: "set (concat (snd state)) \<subseteq> set l"
    using inv unfolding groupInv_def by blast+
  have "m_id (store ! m) \<in> (\<lambda>j. m_id (store ! j)) ` set (concat (snd state))"
    using True unfolding fs .
  then obtain j where j: "j \<in> set (concat (snd state))" "m_id (store ! j) = m_id (store ! m)"
    by force
  then have "j = m" using ids sub m by blast
  then show ?thesis using j(1) unfolding same by blast
next
  case False
  obtain processed groups where s: "state = (processed, groups)" by (cases state)
  have step: "snd (groupStep store l m state) = groups @ [findSiblings store m l]"
    using False by (simp add: groupStep_def s Let_def)
  have "m \<in> set (findSiblings store m l)"
    using findSiblings_cases [of store m l] m by (auto simp: haveSameParents_refl)
  then have "insert m (set (concat groups)) \<subseteq> set (concat (groups @ [findSiblings store m l]))"
    by auto
  then show ?thesis unfolding step by (simp add: s)
qed

lemma groupFold_inv:
  assumes "groupInv store l state" and "set rest \<subseteq> set l" and dl: "distinct l"
    and ids: "\<forall>a\<in>set l. \<forall>b\<in>set l. m_id (store ! a) = m_id (store ! b) \<longrightarrow> a = b"
  shows "groupInv store l (fold (groupStep store l) rest state)
       \<and> set rest \<union> set (concat (snd state)) \<subseteq> set (concat (snd (fold (groupStep store l) rest state)))"
  using assms(1,2)
proof (induction rest arbitrary: state)
  case Nil
  then show ?case by simp
next
  case (Cons m rest)
  have m: "m \<in> set l" and r: "set rest \<subseteq> set l" using Cons.prems(2) by simp_all
  have i1: "groupInv store l (groupStep store l m state)"
    by (rule groupStep_inv [OF Cons.prems(1) m dl])
  have c1: "insert m (set (concat (snd state))) \<subseteq> set (concat (snd (groupStep store l m state)))"
    by (rule groupStep_covers [OF Cons.prems(1) m ids])
  from Cons.IH [OF i1 r] c1 show ?case
    unfolding fold_simps list.set(2) by blast
qed

lemma groupSiblings_inv:
  assumes dl: "distinct l"
    and ids: "\<forall>a\<in>set l. \<forall>b\<in>set l. m_id (store ! a) = m_id (store ! b) \<longrightarrow> a = b"
  shows "groupInv store l (fold (groupStep store l) l ({}, []))"
    and "set (concat (groupSiblings store l)) = set l"
    and "distinct (concat (groupSiblings store l))"
proof -
  have i0: "groupInv store l ({}, [])" by (simp add: groupInv_def)
  have f: "groupInv store l (fold (groupStep store l) l ({}, []))
       \<and> set l \<union> set (concat (snd ({} :: string set, [] :: nat list list)))
           \<subseteq> set (concat (snd (fold (groupStep store l) l ({}, []))))"
    by (rule groupFold_inv [OF i0 _ dl ids]) simp
  then show inv: "groupInv store l (fold (groupStep store l) l ({}, []))" by simp
  have "set (concat (groupSiblings store l)) \<subseteq> set l"
    using inv unfolding groupInv_def groupSiblings_fold by blast
  moreover have "set l \<subseteq> set (concat (groupSiblings store l))"
    using f unfolding groupSiblings_fold by blast
  ultimately show "set (concat (groupSiblings store l)) = set l" by blast
  show "distinct (concat (groupSiblings store l))"
    using inv unfolding groupInv_def groupSiblings_fold by blast
qed

lemma groupSiblings_class:
  assumes dl: "distinct l"
    and ids: "\<forall>a\<in>set l. \<forall>b\<in>set l. m_id (store ! a) = m_id (store ! b) \<longrightarrow> a = b"
    and x: "x \<in> set l" and nr: "parentIds (store ! x) \<noteq> []"
  shows "\<exists>grp\<in>set (groupSiblings store l).
           set grp = {b \<in> set l. haveSameParents (store ! x) (store ! b)}"
proof -
  note g = groupSiblings_inv [OF dl ids]
  have "x \<in> set (concat (groupSiblings store l))" using g(2) x by blast
  then obtain grp where grp: "grp \<in> set (groupSiblings store l)" "x \<in> set grp"
    by auto
  have "set grp \<subseteq> set (concat (groupSiblings store l))" using grp(1) by auto
  then have sub: "set grp \<subseteq> set l" using g(2) by blast
  have "b \<in> set grp" if "b \<in> set l" "haveSameParents (store ! x) (store ! b)" for b
    using g(1) grp nr that unfolding groupInv_def groupSiblings_fold [symmetric] by blast
  moreover have "haveSameParents (store ! x) (store ! b)" if "b \<in> set grp" for b
    using g(1) grp that unfolding groupInv_def groupSiblings_fold [symmetric] by blast
  ultimately have "set grp = {b \<in> set l. haveSameParents (store ! x) (store ! b)}"
    using sub by auto
  then show ?thesis using grp(1) by blast
qed

lemma updateFirst_at:
  assumes "distinct (map m_id all)" and "j < length all"
  shows "updateFirst (\<lambda>m. m_id m = m_id (all ! j)) f all = all[j := f (all ! j)]"
  using assms
proof (induction all arbitrary: j)
  case Nil
  then show ?case by simp
next
  case (Cons a as)
  show ?case
  proof (cases j)
    case 0
    then show ?thesis by simp
  next
    case (Suc j')
    then have j': "j' < length as" using Cons.prems(2) by simp
    then have "as ! j' \<in> set as" by simp
    then have "m_id a \<noteq> m_id (as ! j')" using Cons.prems(1) by auto
    moreover have "updateFirst (\<lambda>m. m_id m = m_id (as ! j')) f as = as[j' := f (as ! j')]"
      using Cons.IH [OF _ j'] Cons.prems(1) by simp
    ultimately show ?thesis using Suc by simp
  qed
qed

lemma place_fold:
  assumes ids: "map m_id all = map m_id store" and dist: "distinct (map m_id store)"
    and dx: "distinct xs" and rng: "\<forall>j\<in>set xs. j < length store"
  shows "map m_id (fold (\<lambda>(index, member) acc.
                       updateFirst (\<lambda>m. m_id m = m_id (store ! member))
                         (\<lambda>m. m\<lparr>position := pos index member\<rparr>) acc) (enumerate n xs) all) = map m_id store
       \<and> (\<forall>k<length xs. position (fold (\<lambda>(index, member) acc.
                       updateFirst (\<lambda>m. m_id m = m_id (store ! member))
                         (\<lambda>m. m\<lparr>position := pos index member\<rparr>) acc) (enumerate n xs) all ! (xs ! k))
              = pos (n + k) (xs ! k))
       \<and> (\<forall>j. j \<notin> set xs \<longrightarrow> fold (\<lambda>(index, member) acc.
                       updateFirst (\<lambda>m. m_id m = m_id (store ! member))
                         (\<lambda>m. m\<lparr>position := pos index member\<rparr>) acc) (enumerate n xs) all ! j = all ! j)"
  using ids dx rng
proof (induction xs arbitrary: n all)
  case Nil
  then show ?case by simp
next
  case (Cons a xs)
  let ?step = "\<lambda>(index, member) acc.
                       updateFirst (\<lambda>m. m_id m = m_id (store ! member))
                         (\<lambda>m. m\<lparr>position := pos index member\<rparr>) acc"
  define all1 where "all1 = all[a := (all ! a)\<lparr>position := pos n a\<rparr>]"
  have len: "length all = length store" using Cons.prems(1) by (metis length_map)
  have a: "a < length all" using Cons.prems(3) len by simp
  have ida: "m_id (store ! a) = m_id (all ! a)"
    using Cons.prems(1) a len by (metis nth_map)
  have da: "distinct (map m_id all)" using Cons.prems(1) dist by simp
  have u: "updateFirst (\<lambda>m. m_id m = m_id (store ! a)) (\<lambda>m. m\<lparr>position := pos n a\<rparr>) all = all1"
    unfolding ida all1_def by (rule updateFirst_at [OF da a])
  have f: "fold ?step (enumerate n (a # xs)) all = fold ?step (enumerate (Suc n) xs) all1"
    by (simp add: u)
  have "map m_id all1 = (map m_id all)[a := map m_id all ! a]"
    unfolding all1_def using a by (simp add: map_update)
  then have ids1: "map m_id all1 = map m_id store"
    using Cons.prems(1) by (simp only: list_update_id)
  have IH: "map m_id (fold ?step (enumerate (Suc n) xs) all1) = map m_id store
       \<and> (\<forall>k<length xs. position (fold ?step (enumerate (Suc n) xs) all1 ! (xs ! k)) = pos (Suc n + k) (xs ! k))
       \<and> (\<forall>j. j \<notin> set xs \<longrightarrow> fold ?step (enumerate (Suc n) xs) all1 ! j = all1 ! j)"
    using Cons.IH [OF ids1, of "Suc n"] Cons.prems(2,3) by simp
  have anot: "a \<notin> set xs" using Cons.prems(2) by simp
  have p0: "position (fold ?step (enumerate (Suc n) xs) all1 ! a) = pos n a"
    using IH anot a by (simp add: all1_def)
  have pk: "\<forall>k<length (a # xs). position (fold ?step (enumerate (Suc n) xs) all1 ! ((a # xs) ! k))
              = pos (n + k) ((a # xs) ! k)"
  proof (intro allI impI)
    fix k assume k: "k < length (a # xs)"
    show "position (fold ?step (enumerate (Suc n) xs) all1 ! ((a # xs) ! k)) = pos (n + k) ((a # xs) ! k)"
    proof (cases k)
      case 0
      then show ?thesis using p0 by simp
    next
      case (Suc k')
      then show ?thesis using IH k by simp
    qed
  qed
  have un: "\<forall>j. j \<notin> set (a # xs) \<longrightarrow> fold ?step (enumerate (Suc n) xs) all1 ! j = all ! j"
    using IH by (simp add: all1_def)
  show ?case unfolding f using IH pk un by blast
qed

lemma positionGroup_places:
  assumes ids: "map m_id all = map m_id store" and dist: "distinct (map m_id store)"
    and dx: "distinct grp" and rng: "\<forall>j\<in>set grp. j < length store"
  shows "map m_id (snd (positionGroup cfg store y grp (cx, all))) = map m_id store
       \<and> groupPlaced cfg store y grp (cx - ((real (length grp) - 1) * siblingSpacing cfg) / 2)
            (snd (positionGroup cfg store y grp (cx, all)))
       \<and> (\<forall>j. j \<notin> set grp \<longrightarrow> snd (positionGroup cfg store y grp (cx, all)) ! j = all ! j)"
  using place_fold [OF ids dist dx rng,
      of "\<lambda>index member. \<lparr>pos_x = (cx - ((real (length grp) - 1) * siblingSpacing cfg) / 2)
                                    + real index * siblingSpacing cfg,
                            pos_y = y, pos_z = calculateZPosition (store ! member)\<rparr>" 0]
  by (simp add: positionGroup_def Let_def groupPlaced_def)

lemma positionGroups_places:
  assumes ids: "map m_id all = map m_id store" and dist: "distinct (map m_id store)"
    and dg: "distinct (concat groups)" and rng: "\<forall>j\<in>set (concat groups). j < length store"
  shows "map m_id (snd (fold (positionGroup cfg store y) groups (cx, all))) = map m_id store
       \<and> (\<forall>grp\<in>set groups. \<exists>startX.
             groupPlaced cfg store y grp startX (snd (fold (positionGroup cfg store y) groups (cx, all))))
       \<and> (\<forall>j. j \<notin> set (concat groups) \<longrightarrow>
             snd (fold (positionGroup cfg store y) groups (cx, all)) ! j = all ! j)"
  using ids dg rng
proof (induction groups arbitrary: cx all)
  case Nil
  then show ?case by simp
next
  case (Cons grp groups)
  obtain cx1 all1 where s: "positionGroup cfg store y grp (cx, all) = (cx1, all1)"
    by (cases "positionGroup cfg store y grp (cx, all)")
  let ?R = "snd (fold (positionGroup cfg store y) groups (cx1, all1))"
  have dgrp: "distinct grp" and dgs: "distinct (concat groups)"
    and disj: "set grp \<inter> set (concat groups) = {}"
    using Cons.prems(2) by simp_all
  have rgrp: "\<forall>j\<in>set grp. j < length store" and rgs: "\<forall>j\<in>set (concat groups). j < length store"
    using Cons.prems(3) by simp_all
  obtain startX where p: "map m_id all1 = map m_id store" "groupPlaced cfg store y grp startX all1"
      "\<forall>j. j \<notin> set grp \<longrightarrow> all1 ! j = all ! j"
    using positionGroup_places [OF Cons.prems(1) dist dgrp rgrp, of cfg y cx] s by auto
  have IH: "map m_id ?R = map m_id store
       \<and> (\<forall>grp\<in>set groups. \<exists>startX. groupPlaced cfg store y grp startX ?R)
       \<and> (\<forall>j. j \<notin> set (concat groups) \<longrightarrow> ?R ! j = all1 ! j)"
    by (rule Cons.IH [OF p(1) dgs rgs])
  have "groupPlaced cfg store y grp startX ?R"
    unfolding groupPlaced_def
  proof (intro allI impI)
    fix k assume k: "k < length grp"
    then have "grp ! k \<in> set grp" by simp
    then have "grp ! k \<notin> set (concat groups)" using disj by blast
    then have "?R ! (grp ! k) = all1 ! (grp ! k)" using IH by blast
    then show "position (?R ! (grp ! k)) =
        \<lparr>pos_x = startX + real k * siblingSpacing cfg, pos_y = y,
         pos_z = calculateZPosition (store ! (grp ! k))\<rparr>"
      using p(2) k by (simp add: groupPlaced_def)
  qed
  then have a: "\<forall>g\<in>set (grp # groups). \<exists>startX. groupPlaced cfg store y g startX ?R"
    using IH by auto
  have b: "\<forall>j. j \<notin> set (concat (grp # groups)) \<longrightarrow> ?R ! j = all ! j"
    using IH p(3) by simp
  show ?case using IH a b by (simp add: s)
qed

lemma positionGeneration_places:
  assumes ids: "map m_id all = map m_id store" and dist: "distinct (map m_id store)"
    and dl: "distinct l" and rng: "\<forall>j\<in>set l. j < length store"
  shows "map m_id (positionGeneration l gen cfg store all) = map m_id store
       \<and> (\<forall>grp\<in>set (groupSiblings store l). \<exists>startX.
             groupPlaced cfg store (- of_int gen * generationSpacing cfg) grp startX
               (positionGeneration l gen cfg store all))
       \<and> (\<forall>j. j \<notin> set l \<longrightarrow> positionGeneration l gen cfg store all ! j = all ! j)"
proof -
  have idl: "\<forall>a\<in>set l. \<forall>b\<in>set l. m_id (store ! a) = m_id (store ! b) \<longrightarrow> a = b"
    using rng distinct_ids_eq [OF dist] by blast
  note g = groupSiblings_inv(2,3) [OF dl idl]
  have rg: "\<forall>j\<in>set (concat (groupSiblings store l)). j < length store"
    using rng unfolding g(1) .
  show ?thesis
    using positionGroups_places [OF ids dist g(2) rg, of cfg "- of_int gen * generationSpacing cfg" 0]
    unfolding g(1) by (simp add: positionGeneration_def Let_def)
qed

lemma positionGenerations_places:
  assumes ids: "map m_id all = map m_id store" and dist: "distinct (map m_id store)"
    and dg: "distinct (concat (map snd gens))" and rng: "\<forall>j\<in>placedIn gens. j < length store"
  shows "map m_id (fold (\<lambda>(gen, generationMembers) allMembers.
                     positionGeneration generationMembers gen cfg store allMembers) gens all) = map m_id store
       \<and> (\<forall>e\<in>set gens. \<forall>grp\<in>set (groupSiblings store (snd e)). \<exists>startX.
             groupPlaced cfg store (- of_int (fst e) * generationSpacing cfg) grp startX
               (fold (\<lambda>(gen, generationMembers) allMembers.
                     positionGeneration generationMembers gen cfg store allMembers) gens all))
       \<and> (\<forall>j. j \<notin> placedIn gens \<longrightarrow>
             fold (\<lambda>(gen, generationMembers) allMembers.
                     positionGeneration generationMembers gen cfg store allMembers) gens all ! j = all ! j)"
  using ids dg rng
proof (induction gens arbitrary: all)
  case Nil
  then show ?case by (simp add: placedIn_def)
next
  case (Cons e gens)
  obtain gen l where e: "e = (gen, l)" by (cases e)
  let ?f = "\<lambda>(gen, generationMembers) allMembers.
                     positionGeneration generationMembers gen cfg store allMembers"
  define all1 where "all1 = positionGeneration l gen cfg store all"
  let ?R = "fold ?f gens all1"
  have f: "fold ?f (e # gens) all = ?R" by (simp add: e all1_def)
  have dl: "distinct l" and dgs: "distinct (concat (map snd gens))"
    and disj: "set l \<inter> placedIn gens = {}"
    using Cons.prems(2) by (simp_all add: e placedIn_def)
  have rl: "\<forall>j\<in>set l. j < length store" and rgs: "\<forall>j\<in>placedIn gens. j < length store"
    using Cons.prems(3) by (simp_all add: e placedIn_def)
  have p: "map m_id all1 = map m_id store"
      "\<forall>grp\<in>set (groupSiblings store l). \<exists>startX.
             groupPlaced cfg store (- of_int gen * generationSpacing cfg) grp startX all1"
      "\<forall>j. j \<notin> set l \<longrightarrow> all1 ! j = all ! j"
    unfolding all1_def using positionGeneration_places [OF Cons.prems(1) dist dl rl, of gen cfg] by blast+
  have IH: "map m_id ?R = map m_id store
       \<and> (\<forall>e\<in>set gens. \<forall>grp\<in>set (groupSiblings store (snd e)). \<exists>startX.
             groupPlaced cfg store (- of_int (fst e) * generationSpacing cfg) grp startX ?R)
       \<and> (\<forall>j. j \<notin> placedIn gens \<longrightarrow> ?R ! j = all1 ! j)"
    by (rule Cons.IH [OF p(1) dgs rgs])
  have idl: "\<forall>a\<in>set l. \<forall>b\<in>set l. m_id (store ! a) = m_id (store ! b) \<longrightarrow> a = b"
    using rl distinct_ids_eq [OF dist] by blast
  have gl: "set (concat (groupSiblings store l)) = set l" by (rule groupSiblings_inv(2) [OF dl idl])
  have here: "\<forall>grp\<in>set (groupSiblings store l). \<exists>startX.
             groupPlaced cfg store (- of_int gen * generationSpacing cfg) grp startX ?R"
  proof
    fix grp assume grp: "grp \<in> set (groupSiblings store l)"
    then obtain startX where sx: "groupPlaced cfg store (- of_int gen * generationSpacing cfg) grp startX all1"
      using p(2) by blast
    have "set grp \<subseteq> set (concat (groupSiblings store l))" using grp by auto
    then have sub: "set grp \<subseteq> set l" unfolding gl .
    have "groupPlaced cfg store (- of_int gen * generationSpacing cfg) grp startX ?R"
      unfolding groupPlaced_def
    proof (intro allI impI)
      fix k assume k: "k < length grp"
      then have "grp ! k \<in> set l" using sub by auto
      then have "grp ! k \<notin> placedIn gens" using disj by blast
      then have "?R ! (grp ! k) = all1 ! (grp ! k)" using IH by blast
      then show "position (?R ! (grp ! k)) =
          \<lparr>pos_x = startX + real k * siblingSpacing cfg, pos_y = - of_int gen * generationSpacing cfg,
           pos_z = calculateZPosition (store ! (grp ! k))\<rparr>"
        using sx k by (simp add: groupPlaced_def)
    qed
    then show "\<exists>startX. groupPlaced cfg store (- of_int gen * generationSpacing cfg) grp startX ?R"
      by blast
  qed
  have a: "\<forall>e'\<in>set (e # gens). \<forall>grp\<in>set (groupSiblings store (snd e')). \<exists>startX.
             groupPlaced cfg store (- of_int (fst e') * generationSpacing cfg) grp startX ?R"
    using here IH by (simp add: e)
  have b: "\<forall>j. j \<notin> placedIn (e # gens) \<longrightarrow> ?R ! j = all ! j"
    using IH p(3) by (simp add: e placedIn_def)
  show ?case unfolding f using IH a b by blast
qed

lemma pushGeneration_distinct:
  assumes "distinct (concat (map snd gens))" and "i \<notin> placedIn gens"
  shows "distinct (concat (map snd (pushGeneration g i gens)))"
  using assms
proof (induction gens)
  case Nil
  show ?case by (simp add: pushGeneration_Nil)
next
  case (Cons p gens)
  obtain g0 l0 where p: "p = (g0, l0)" by (cases p)
  have i: "i \<notin> set l0" "i \<notin> placedIn gens" using Cons.prems(2) by (simp_all add: p placedIn_def)
  have d: "distinct l0" "distinct (concat (map snd gens))" "set l0 \<inter> placedIn gens = {}"
    using Cons.prems(1) by (simp_all add: p placedIn_def)
  show ?case
  proof (cases "g0 = g")
    case True
    then show ?thesis using i d by (simp add: p pushGeneration_Cons placedIn_def)
  next
    case False
    have "distinct (concat (map snd (pushGeneration g i gens)))" using Cons.IH [OF d(2) i(2)] .
    moreover have "set l0 \<inter> placedIn (pushGeneration g i gens) = {}"
      using d(3) i(1) by (simp add: placedIn_pushGeneration)
    ultimately show ?thesis using False d(1) by (simp add: p pushGeneration_Cons placedIn_def)
  qed
qed

lemma organizeByGenerations_gens:
  "distinct (map fst (snd (organizeByGenerations ms0)))
   \<and> distinct (concat (map snd (snd (organizeByGenerations ms0))))"
  unfolding organizeByGenerations_def Let_def
proof (rule bfsLoop_rule [where I = "\<lambda>ms q v gens. storeInv ms0 ms q v gens
            \<and> distinct (map fst gens) \<and> distinct (concat (map snd gens))"
        and Q = "\<lambda>F G. distinct (map fst G) \<and> distinct (concat (map snd G))"])
  show "storeInv ms0 ms0
     (map (\<lambda>member. (member, 0)) (filter (\<lambda>i. length (parentIds (ms0 ! i)) = 0) [0..<length ms0])) {} []
     \<and> distinct (map fst []) \<and> distinct (concat (map snd []))"
    by (simp add: storeInv_def sameGraph_refl placedIn_def)
next
  fix ms i g q v gens
  assume "storeInv ms0 ms ((i, g) # q) v gens \<and> distinct (map fst gens) \<and> distinct (concat (map snd gens))"
    and "m_id (ms ! i) \<in> v"
  then show "storeInv ms0 ms q v gens \<and> distinct (map fst gens) \<and> distinct (concat (map snd gens))"
    using storeInv_skip by blast
next
  fix ms i g q v gens
  assume inv: "storeInv ms0 ms ((i, g) # q) v gens \<and> distinct (map fst gens) \<and> distinct (concat (map snd gens))"
    and nv: "m_id (ms ! i) \<notin> v"
  then have st: "storeInv ms0 ms ((i, g) # q) v gens" by simp
  show "storeInv ms0 (setGeneration ms i g) (q @ childEntries ms (insert (m_id (ms ! i)) v) i g)
          (insert (m_id (ms ! i)) v) (pushGeneration g i gens)
        \<and> distinct (map fst (pushGeneration g i gens))
        \<and> distinct (concat (map snd (pushGeneration g i gens)))"
    using storeInv_visit [OF st nv] inv pushGeneration_keys
      pushGeneration_distinct [OF _ visit_facts(3) [OF st nv]] by blast
next
  fix ms v gens
  assume "storeInv ms0 ms [] v gens \<and> distinct (map fst gens) \<and> distinct (concat (map snd gens))"
  then show "distinct (map fst gens) \<and> distinct (concat (map snd gens))" by simp
qed

lemma placed_entry:
  assumes st: "storeInv ms0 F [] v G" and j: "j \<in> placedIn G"
    and dk: "distinct (map fst G)"
  shows "\<exists>l. (generation (F ! j), l) \<in> set G \<and> j \<in> set l \<and> map_of G (generation (F ! j)) = Some l"
proof -
  obtain e where e: "e \<in> set G" "j \<in> set (snd e)" using j by (auto simp: placedIn_def)
  then have g: "generation (F ! j) = fst e" using st by (simp add: storeInv_def)
  have "(fst e, snd e) \<in> set G" using e(1) by simp
  then have "map_of G (fst e) = Some (snd e)" using dk by (rule map_of_is_SomeI [rotated])
  then show ?thesis using e g by (intro exI [of _ "snd e"]) simp
qed

lemma siblings_generation_le:
  assumes wf: "wellFormedPedigree rank ms0" and inv: "layoutInv ms0 F [] v G"
    and x: "x < length ms0" and y: "y < length ms0"
    and nr: "parentIds (ms0 ! x) \<noteq> []"
    and sp: "set (parentIds (ms0 ! x)) = set (parentIds (ms0 ! y))"
  shows "generation (F ! y) \<le> generation (F ! x)"
proof -
  have dist: "distinct (map m_id ms0)" and sym: "symmetricLinks ms0"
    using wf by (simp_all add: wellFormedPedigree_def)
  obtain j where j: "j \<in> placedIn G" "j < length ms0" "m_id (ms0 ! x) \<in> set (childrenIds (ms0 ! j))"
      "generation (F ! x) = generation (F ! j) + 1"
    using final_parent [OF inv all_placed [OF wf inv x] nr] by blast
  have "m_id (ms0 ! j) \<in> set (parentIds (ms0 ! x))"
    using symmetricLinksD [OF sym x j(2)] j(3) by simp
  then have "m_id (ms0 ! j) \<in> set (parentIds (ms0 ! y))" using sp by simp
  then have "m_id (ms0 ! y) \<in> set (childrenIds (ms0 ! j))"
    using symmetricLinksD [OF sym y j(2)] by simp
  then have "generation (F ! y) \<le> generation (F ! j) + 1"
    using final_children(2) [OF inv dist j(1) y] by simp
  then show ?thesis using j(4) by simp
qed

lemma siblings_same_generation:
  assumes wf: "wellFormedPedigree rank ms0" and inv: "layoutInv ms0 F [] v G"
    and x: "x < length ms0" and y: "y < length ms0"
    and nr: "parentIds (ms0 ! x) \<noteq> []"
    and sp: "haveSameParents (ms0 ! x) (ms0 ! y)"
  shows "generation (F ! x) = generation (F ! y)"
proof -
  have s: "set (parentIds (ms0 ! x)) = set (parentIds (ms0 ! y))"
    using sp by (simp add: haveSameParents_iff)
  have nry: "parentIds (ms0 ! y) \<noteq> []" using sp nr by (rule haveSameParents_nonroot)
  have "generation (F ! y) \<le> generation (F ! x)"
    by (rule siblings_generation_le [OF wf inv x y nr s])
  moreover have "generation (F ! x) \<le> generation (F ! y)"
    by (rule siblings_generation_le [OF wf inv y x nry s [symmetric]])
  ultimately show ?thesis by simp
qed

lemma calculateZPosition_sameGraph:
  "sameGraph ms ms' \<Longrightarrow> calculateZPosition (ms' ! j) = calculateZPosition (ms ! j)"
  by (simp add: calculateZPosition_def sameGraph_fields(1))

lemma haveSameParents_sameGraph:
  "sameGraph ms ms' \<Longrightarrow> haveSameParents (ms' ! a) (ms' ! b) = haveSameParents (ms ! a) (ms ! b)"
  by (simp add: haveSameParents_iff sameGraph_fields(2))

lemma distinct_concat_member: "distinct (concat xss) \<Longrightarrow> xs \<in> set xss \<Longrightarrow> distinct xs"
  by (induction xss) auto

lemma siblings_layout:
  assumes wf: "wellFormedPedigree rank ms0" and x: "x < length ms0"
    and nr: "parentIds (ms0 ! x) \<noteq> []"
  shows "\<exists>startX grp. distinct grp
       \<and> set grp = {b. b < length ms0 \<and> haveSameParents (ms0 ! x) (ms0 ! b)}
       \<and> (\<forall>k<length grp. position (fst (calculateLayout ms0 cfg) ! (grp ! k)) =
             \<lparr>pos_x = startX + real k * siblingSpacing cfg,
              pos_y = - of_int (generation (fst (calculateLayout ms0 cfg) ! x)) * generationSpacing cfg,
              pos_z = calculateZPosition (ms0 ! (grp ! k))\<rparr>)"
proof -
  have dist: "distinct (map m_id ms0)" and sym: "symmetricLinks ms0"
    using wf by (simp_all add: wellFormedPedigree_def)
  define F G where "F = fst (organizeByGenerations ms0)" and "G = snd (organizeByGenerations ms0)"
  define L where "L = fst (calculateLayout ms0 cfg)"
  obtain v where inv: "layoutInv ms0 F [] v G"
    using organizeByGenerations_layoutInv [OF dist sym] unfolding F_def G_def by blast
  then have st: "storeInv ms0 F [] v G" by (simp add: layoutInv_def)
  then have sg: "sameGraph ms0 F" by (simp add: storeInv_def)
  have len: "length F = length ms0" using sg by (rule sameGraph_fields)
  have dk: "distinct (map fst G)" and dg: "distinct (concat (map snd G))"
    using organizeByGenerations_gens [of ms0] unfolding G_def by simp_all
  have distF: "distinct (map m_id F)" using dist sameGraph_ids [OF sg] by simp
  have rng: "\<forall>j\<in>placedIn G. j < length F" using storeInv_placed(1) [OF st] len by simp
  have Ldef: "L = fold (\<lambda>(gen, generationMembers) allMembers.
                     positionGeneration generationMembers gen cfg F allMembers) G F"
    unfolding L_def F_def G_def by (simp add: calculateLayout_def split: prod.splits)
  have P: "\<forall>e\<in>set G. \<forall>grp\<in>set (groupSiblings F (snd e)). \<exists>startX.
             groupPlaced cfg F (- of_int (fst e) * generationSpacing cfg) grp startX L"
    unfolding Ldef using positionGenerations_places [OF refl distF dg rng, of cfg] by blast
  have genL: "generation (L ! x) = generation (F ! x)"
    unfolding L_def F_def using x by (rule calculateLayout_generation)
  define gx where "gx = generation (F ! x)"
  obtain lx where lx: "(gx, lx) \<in> set G" "x \<in> set lx" "map_of G gx = Some lx"
    using placed_entry [OF st all_placed [OF wf inv x] dk] unfolding gx_def by blast
  have "lx \<in> set (map snd G)" using lx(1) by force
  then have dlx: "distinct lx" using dg by (rule distinct_concat_member [rotated])
  have sublx: "set lx \<subseteq> placedIn G" using lx(1) by (force simp: placedIn_def)
  then have rlx: "\<forall>j\<in>set lx. j < length F" using rng by blast
  have idl: "\<forall>a\<in>set lx. \<forall>b\<in>set lx. m_id (F ! a) = m_id (F ! b) \<longrightarrow> a = b"
    using rlx distinct_ids_eq [OF distF] by blast
  have nrF: "parentIds (F ! x) \<noteq> []" using nr sameGraph_fields(2) [OF sg] by simp
  obtain grp where grp: "grp \<in> set (groupSiblings F lx)"
      "set grp = {b \<in> set lx. haveSameParents (F ! x) (F ! b)}"
    using groupSiblings_class [OF dlx idl lx(2) nrF] by blast
  have dgrp: "distinct grp"
    using groupSiblings_inv(3) [OF dlx idl] grp(1) by (rule distinct_concat_member)
  have inlx: "b \<in> set lx" if b: "b < length ms0" and sb: "haveSameParents (ms0 ! x) (ms0 ! b)" for b
  proof -
    have "generation (F ! b) = gx"
      unfolding gx_def using siblings_same_generation [OF wf inv x b nr sb] by simp
    then obtain lb where lb: "b \<in> set lb" "map_of G gx = Some lb"
      using placed_entry [OF st all_placed [OF wf inv b] dk] by auto
    then show ?thesis using lx(3) by simp
  qed
  have cls: "set grp = {b. b < length ms0 \<and> haveSameParents (ms0 ! x) (ms0 ! b)}"
    unfolding grp(2) haveSameParents_sameGraph [OF sg]
    using inlx rlx len by auto
  obtain startX where sx: "groupPlaced cfg F (- of_int gx * generationSpacing cfg) grp startX L"
    using P lx(1) grp(1) by force
  have "\<forall>k<length grp. position (L ! (grp ! k)) =
             \<lparr>pos_x = startX + real k * siblingSpacing cfg,
              pos_y = - of_int (generation (L ! x)) * generationSpacing cfg,
              pos_z = calculateZPosition (ms0 ! (grp ! k))\<rparr>"
    using sx unfolding groupPlaced_def genL gx_def calculateZPosition_sameGraph [OF sg] .
  then show ?thesis using dgrp cls unfolding L_def by blast
qed

text \<open>
  Claim C8 as stated fails when the traversal cannot reach the siblings: \<open>X\<close> and
  \<open>Y\<close> name \<open>R\<close> as their parent, but \<open>R\<close> does not list them as children.
  Both keep what they had before the run: different generations (0 and 7), and positions
  that are neither \<open>siblingSpacing\<close> apart nor at \<open>y = - generation * generationSpacing\<close>.
\<close>

theorem C8_unlinked_siblings_counterexample:
  "parentIds (unlinkedFamily ! 1) = [''R''] \<and> parentIds (unlinkedFamily ! 2) = [''R'']
   \<and> memberIndexOf unlinkedFamily ''R'' = Some 0
   \<and> generation (fst (calculateLayout unlinkedFamily DEFAULT_CONFIG) ! 1) = 0
   \<and> generation (fst (calculateLayout unlinkedFamily DEFAULT_CONFIG) ! 2) = 7
   \<and> position (fst (calculateLayout unlinkedFamily DEFAULT_CONFIG) ! 1)
        = \<lparr>pos_x = 0, pos_y = 0, pos_z = 0\<rparr>
   \<and> position (fst (calculateLayout unlinkedFamily DEFAULT_CONFIG) ! 2)
        = \<lparr>pos_x = 9, pos_y = 9, pos_z = 9\<rparr>"
  by code_simp

text \<open>
  Claim C8, amended. On a well-formed pedigree, two people with the same non-empty,
  duplicate-free set of parent ids get the same generation. The full siblings of a
  person form one sibling group \<open>grp\<close>, and the \<open>k\<close>-th member of the group is
  placed at \<open>x = startX + k * siblingSpacing\<close>, \<open>y = - generation * generationSpacing\<close>
  and the \<open>z\<close> of its id hash.
\<close>

theorem C8_full_siblings_layout:
  assumes "wellFormedPedigree rank members" and "x < length members" and "y < length members"
    and "parentIds (members ! x) \<noteq> []"
    and "set (parentIds (members ! x)) = set (parentIds (members ! y))"
    and "distinct (parentIds (members ! x))" and "distinct (parentIds (members ! y))"
    and "layout = fst (calculateLayout members config)"
  shows "generation (layout ! x) = generation (layout ! y)
       \<and> (\<exists>startX grp. x \<in> set grp \<and> y \<in> set grp \<and> distinct grp
            \<and> set grp = {b. b < length members \<and> haveSameParents (members ! x) (members ! b)}
            \<and> (\<forall>k<length grp. position (layout ! (grp ! k)) =
                 \<lparr>pos_x = startX + real k * siblingSpacing config,
                  pos_y = - of_int (generation (layout ! x)) * generationSpacing config,
                  pos_z = calculateZPosition (members ! (grp ! k))\<rparr>))"
proof -
  have "length (parentIds (members ! x)) = card (set (parentIds (members ! x)))"
    using assms(6) by (simp add: distinct_card)
  also have "\<dots> = length (parentIds (members ! y))"
    using assms(5,7) by (simp add: distinct_card)
  finally have sp: "haveSameParents (members ! x) (members ! y)"
    using assms(5) by (simp add: haveSameParents_iff)
  have dist: "distinct (map m_id members)" and sym: "symmetricLinks members"
    using assms(1) by (simp_all add: wellFormedPedigree_def)
  obtain v where inv: "layoutInv members (fst (organizeByGenerations members)) [] v
      (snd (organizeByGenerations members))"
    using organizeByGenerations_layoutInv [OF dist sym] by blast
  have g: "generation (layout ! x) = generation (layout ! y)"
    unfolding assms(8)
    using siblings_same_generation [OF assms(1) inv assms(2,3,4) sp]
      calculateLayout_generation [OF assms(2)] calculateLayout_generation [OF assms(3)]
    by simp
  obtain startX grp where grp: "distinct grp"
      "set grp = {b. b < length members \<and> haveSameParents (members ! x) (members ! b)}"
      "\<forall>k<length grp. position (layout ! (grp ! k)) =
             \<lparr>pos_x = startX + real k * siblingSpacing config,
              pos_y = - of_int (generation (layout ! x)) * generationSpacing config,
              pos_z = calculateZPosition (members ! (grp ! k))\<rparr>"
    using siblings_layout [OF assms(1,2,4), of config] unfolding assms(8) by blast
  have "x \<in> set grp" "y \<in> set grp"
    unfolding grp(2) using assms(2,3) sp by (simp_all add: haveSameParents_refl)
  then show ?thesis using g grp by blast
qed

text \<open>Amended C8 at a concrete input: the siblings \<open>C\<close> and \<open>D\<close>.\<close>

theorem C8_full_siblings_layout_witness:
  "wellFormedPedigree exRank exPedigree \<and> 3 < length exPedigree \<and> 4 < length exPedigree
   \<and> parentIds (exPedigree ! 3) = [''P'', ''S''] \<and> parentIds (exPedigree ! 4) = [''P'', ''S'']
   \<and> generation (fst (calculateLayout exPedigree DEFAULT_CONFIG) ! 3)
        = generation (fst (calculateLayout exPedigree DEFAULT_CONFIG) ! 4)
   \<and> position (fst (calculateLayout exPedigree DEFAULT_CONFIG) ! 3)
        = \<lparr>pos_x = 1 / 2, pos_y = - 4, pos_z = 0\<rparr>
   \<and> position (fst (calculateLayout exPedigree DEFAULT_CONFIG) ! 4)
        = \<lparr>pos_x = 7 / 2, pos_y = - 4, pos_z = 1\<rparr>"
proof -
  have h: "3 < length exPedigree" "4 < length exPedigree"
    by (simp_all add: exPedigree_def)
  have p: "parentIds (exPedigree ! 3) = [''P'', ''S'']" "parentIds (exPedigree ! 4) = [''P'', ''S'']"
    by (simp_all add: exPedigree_def person_def)
  have q: "parentIds (exPedigree ! 3) \<noteq> []"
    "set (parentIds (exPedigree ! 3)) = set (parentIds (exPedigree ! 4))"
    "distinct (parentIds (exPedigree ! 3))" "distinct (parentIds (exPedigree ! 4))"
    by (simp_all add: p)
  have g: "generation (fst (calculateLayout exPedigree DEFAULT_CONFIG) ! 3)
        = generation (fst (calculateLayout exPedigree DEFAULT_CONFIG) ! 4)"
    using C8_full_siblings_layout [OF wellFormed_exPedigree h q refl, of DEFAULT_CONFIG] by blast
  have pos: "position (fst (calculateLayout exPedigree DEFAULT_CONFIG) ! 3)
        = \<lparr>pos_x = 1 / 2, pos_y = - 4, pos_z = 0\<rparr>"
    "position (fst (calculateLayout exPedigree DEFAULT_CONFIG) ! 4)
        = \<lparr>pos_x = 7 / 2, pos_y = - 4, pos_z = 1\<rparr>"
    by code_simp+
  show ?thesis using wellFormed_exPedigree h p g pos by simp
qed

lemma countDescendants_self_child:
  assumes "memberMap a = Some member" and "childrenIds member = [a]"
  shows "countDescendants fuel memberMap member = None"
proof (induction fuel)
  case 0
  show ?case by simp
next
  case (Suc fuel)
  then show ?case using assms by simp
qed

lemma optimizeLayout_exPedigree:
  "map_option (map m_id) (optimizeLayout 3 exPedigree) = Some [''G'', ''S'', ''P'', ''C'', ''D'']"
  by code_simp

text \<open>
  Claim C10 does not hold for \<open>optimizeLayout\<close>. The traversal of
  \<open>organizeByGenerations\<close> terminates on every input (\<open>bfsLoop\<close> is a total function),
  and on the acyclic example pedigree \<open>optimizeLayout\<close> returns with call depth 3. But
  \<open>countDescendants\<close> has no visited set: for a member listed as its own child no
  call depth suffices, and \<open>optimizeLayout\<close> does not return as soon as a second member
  shares the generation, so that the comparator runs.
\<close>

theorem C10_optimizeLayout_diverges_on_cycle:
  "optimizeLayout fuel loopFamily = None"
proof -
  have mm: "memberMapOf loopFamily ''A'' = Some (person ''A'' [] [''A''])"
    by (simp add: memberMapOf_def loopFamily_def person_def)
  have c: "childrenIds (person ''A'' [] [''A'']) = [''A'']" by (simp add: person_def)
  have n: "countDescendants fuel (memberMapOf loopFamily) (person ''A'' [] [''A'']) = None"
    using countDescendants_self_child [of "memberMapOf loopFamily" "''A''" "person ''A'' [] [''A'']" fuel] mm c
    by simp
  have g: "groupByGeneration loopFamily = [(7, [person ''A'' [] [''A''], person ''B'' [] []])]"
    by (simp add: groupByGeneration_def loopFamily_def person_def)
  have "sortByDescendants fuel (memberMapOf loopFamily) [person ''A'' [] [''A''], person ''B'' [] []] = None"
    by (simp add: sortByDescendants_def n)
  then show ?thesis by (simp add: optimizeLayout_def g)
qed

end
